theory Spec2Isabelle
  imports Complex_Main
begin

section \<open>The benchmark harness of \<open>src/bench/lib/benchmark.js\<close>\<close>

subsection \<open>Numbers\<close>

text \<open>
  A JavaScript number is an IEEE 754 double: a finite value (\<open>Num x\<close>, with \<open>x\<close> the
  real number the double stands for), one of the two infinities, or \<open>NaN\<close>. The sign of
  a zero is not kept: \<open>+\<close>, \<open>-\<close> and \<open>>=\<close> do not tell the two zeros apart.
\<close>

datatype js_number = Num real | PosInf | NegInf | NaN

text \<open>
  Rounding to the nearest double, ties to the even significand. The doubles around
  \<open>x\<close> are the multiples of \<open>ulp x\<close>; below \<open>2 powr - 1022\<close> the spacing no longer
  shrinks (subnormal numbers), and a result that rounds to \<open>2 powr 1024\<close> or beyond
  is an infinity.
\<close>

definition binade :: "real \<Rightarrow> int" where
  "binade x = max \<lfloor>log 2 \<bar>x\<bar>\<rfloor> (- 1022)"

definition ulp :: "real \<Rightarrow> real" where
  "ulp x = 2 powr of_int (binade x - 52)"

definition nearest_even :: "real \<Rightarrow> int" where
  "nearest_even q =
     (let n = \<lfloor>q\<rfloor>; r = q - of_int n
      in if r < 1 / 2 then n else if 1 / 2 < r then n + 1 else if even n then n else n + 1)"

definition huge :: real where
  "huge = 2 powr 1024"

definition fl :: "real \<Rightarrow> js_number" where
  "fl x =
     (if x = 0 then Num 0
      else
        (let y = of_int (nearest_even (x / ulp x)) * ulp x
         in if huge \<le> y then PosInf else if y \<le> - huge then NegInf else Num y))"

text \<open>The operators \<open>+\<close>, \<open>-\<close> and \<open>>=\<close> on numbers.\<close>

fun js_add :: "js_number \<Rightarrow> js_number \<Rightarrow> js_number" where
  "js_add NaN _ = NaN"
| "js_add _ NaN = NaN"
| "js_add PosInf NegInf = NaN"
| "js_add NegInf PosInf = NaN"
| "js_add PosInf _ = PosInf"
| "js_add _ PosInf = PosInf"
| "js_add NegInf _ = NegInf"
| "js_add _ NegInf = NegInf"
| "js_add (Num x) (Num y) = fl (x + y)"

fun js_sub :: "js_number \<Rightarrow> js_number \<Rightarrow> js_number" where
  "js_sub NaN _ = NaN"
| "js_sub _ NaN = NaN"
| "js_sub PosInf PosInf = NaN"
| "js_sub NegInf NegInf = NaN"
| "js_sub PosInf _ = PosInf"
| "js_sub _ PosInf = NegInf"
| "js_sub NegInf _ = NegInf"
| "js_sub _ NegInf = PosInf"
| "js_sub (Num x) (Num y) = fl (x - y)"

fun js_ge :: "js_number \<Rightarrow> js_number \<Rightarrow> bool" where
  "js_ge NaN _ = False"
| "js_ge _ NaN = False"
| "js_ge PosInf _ = True"
| "js_ge _ NegInf = True"
| "js_ge _ PosInf = False"
| "js_ge NegInf _ = False"
| "js_ge (Num x) (Num y) = (y \<le> x)"

fun js_finite :: "js_number \<Rightarrow> bool" where
  "js_finite (Num x) = True"
| "js_finite _ = False"

subsection \<open>Data model\<close>

text \<open>
  The field \<open>options\<close> has the Flow type \<open>any\<close>: it holds an arbitrary JavaScript value.
  An object is the list of its own properties, in insertion order; \<open>{}\<close> is
  \<open>JObject []\<close>.
\<close>

datatype js_value =
    JUndefined
  | JNull
  | JBool bool
  | JNumber js_number
  | JString string
  | JArray "js_value list"
  | JObject "(string \<times> js_value) list"

text \<open>The type \<open>BenchmarkOptions\<close> (lines 5-8).\<close>

record BenchmarkOptions =
  label :: string
  options :: js_value

text \<open>
  The fields a \<open>Benchmark\<close> instance declares (lines 11-12). The record is extensible:
  what a subclass stores on \<open>this\<close> lives in the extension.
\<close>

record Benchmark_instance =
  label :: string
  options :: js_value

text \<open>The constructor (lines 24-27) copies both fields of its argument.\<close>

definition constructor :: "BenchmarkOptions \<Rightarrow> Benchmark_instance" where
  "constructor opts =
     \<lparr>Benchmark_instance.label = BenchmarkOptions.label opts,
      Benchmark_instance.options = BenchmarkOptions.options opts\<rparr>"

subsection \<open>Hooks\<close>

text \<open>
  A hook has the type \<open>Promise<void> | void\<close>. Called on a state, which holds \<open>this\<close>
  and whatever else the hook can reach, it returns (\<open>Returns\<close>), throws (\<open>Throws e\<close>) or
  returns a promise, and leaves a new state. The promise stands for work that is still
  to be done: run on the state of the moment, this work ends by fulfilling the promise
  (\<open>Resolves\<close>) or rejecting it (\<open>Rejects e\<close>), or it never ends and the promise stays
  pending for ever (\<open>Pending\<close>).
\<close>

datatype 'e settlement = Resolves | Rejects 'e | Pending

datatype ('s, 'e) hook_result = Returns | Throws 'e | Promise "'s \<Rightarrow> 'e settlement \<times> 's"

type_synonym ('s, 'e) hook = "'s \<Rightarrow> ('s, 'e) hook_result \<times> 's"

text \<open>
  What \<open>Promise.resolve(r).then(k)\<close> waits for, when \<open>r\<close> is what a call of a hook inside
  a \<open>then\<close> callback gave: a value is a fulfilled promise, a throw rejects the promise
  of the callback, and a promise is waited for until it has settled. The callback \<open>k\<close>
  runs after \<open>Fulfilled\<close> only; after \<open>Never\<close> nothing runs any more.
\<close>

datatype 'e outcome = Fulfilled | Failed 'e | Never

fun await :: "('s, 'e) hook_result \<Rightarrow> 's \<Rightarrow> 'e outcome \<times> 's" where
  "await Returns s = (Fulfilled, s)"
| "await (Throws e) s = (Failed e, s)"
| "await (Promise p) s =
     (case p s of
        (Resolves, s') \<Rightarrow> (Fulfilled, s')
      | (Rejects e, s') \<Rightarrow> (Failed e, s')
      | (Pending, s') \<Rightarrow> (Never, s'))"

text \<open>\<open>Promise.resolve(h())\<close> inside a \<open>then\<close> callback: the call, then the wait.\<close>

definition invoke :: "('s, 'e) hook \<Rightarrow> 's \<Rightarrow> 'e outcome \<times> 's" where
  "invoke h s = (case h s of (r, s') \<Rightarrow> await r s')"

text \<open>
  A class: the static method \<open>getArguments\<close> and the three hooks (the field of the hook
  \<open>setup\<close> is \<open>setup_hook\<close>). A subclass is a record
  update of the base class at the methods it overrides.
\<close>

record ('s, 'e) Benchmark_class =
  getArguments :: "BenchmarkOptions list"
  setup_hook :: "('s, 'e) hook"
  bench :: "('s, 'e) hook"
  teardown :: "('s, 'e) hook"

text \<open>The base class \<open>Benchmark\<close> (lines 20-22, 34, 42, 49): the hooks have empty bodies.\<close>

definition Benchmark :: "('s, 'e) Benchmark_class" where
  "Benchmark =
     \<lparr>getArguments = [\<lparr>BenchmarkOptions.label = '''', BenchmarkOptions.options = JObject []\<rparr>],
      setup_hook = (\<lambda>s. (Returns, s)),
      bench = (\<lambda>s. (Returns, s)),
      teardown = (\<lambda>s. (Returns, s))\<rparr>"

subsection \<open>The run\<close>

text \<open>
  What \<open>run\<close> delivers when it fails: an exception thrown out of the call itself, or a
  rejected promise. Both carry the value the hook failed with, and nothing else.
\<close>

datatype 'e failure = Thrown 'e | Rejected 'e

text \<open>
  \<open>performance.now()\<close> reads a timestamp, a number, from the state. The closure \<open>next\<close>
  (lines 59-72) with its captured variables \<open>elapsed\<close> and \<open>samples\<close> as arguments.
  The promise it returns may stay pending for ever, because the loop does not stop or
  because a hook's promise stays pending: that is the value \<open>None\<close>.
\<close>

partial_function (option) next_sample ::
  "('s \<Rightarrow> js_number \<times> 's) \<Rightarrow> ('s, 'e) Benchmark_class \<Rightarrow> js_number \<Rightarrow> js_number list \<Rightarrow> 's
     \<Rightarrow> (('e failure + js_number list) \<times> 's) option"
where
  "next_sample now B elapsed samples s =
     (if js_ge elapsed (Num 300) \<and> length samples > 210 then
        (case invoke (teardown B) s of
           (Fulfilled, s') \<Rightarrow> Some (Inr samples, s')
         | (Failed e, s') \<Rightarrow> Some (Inl (Rejected e), s')
         | (Never, s') \<Rightarrow> None)
      else
        (case now s of (start, s1) \<Rightarrow>
           (case invoke (bench B) s1 of
              (Fulfilled, s2) \<Rightarrow>
                (case now s2 of (end, s3) \<Rightarrow>
                   (let sample = js_sub end start
                    in next_sample now B (js_add elapsed sample) (samples @ [sample]) s3))
            | (Failed e, s2) \<Rightarrow> Some (Inl (Rejected e), s2)
            | (Never, s2) \<Rightarrow> None)))"

declare next_sample.simps [code]

text \<open>
  \<open>run\<close> (lines 55-75). \<open>this.setup()\<close> is called in the body of \<open>run\<close> itself, so a
  throw of \<open>setup\<close> leaves \<open>run\<close> as an exception; a rejected promise of \<open>setup\<close>
  rejects the promise that \<open>run\<close> returns.
\<close>

definition run ::
  "('s \<Rightarrow> js_number \<times> 's) \<Rightarrow> ('s, 'e) Benchmark_class \<Rightarrow> 's
     \<Rightarrow> (('e failure + js_number list) \<times> 's) option"
where
  "run now B s =
     (case setup_hook B s of
        (Throws e, s0) \<Rightarrow> Some (Inl (Thrown e), s0)
      | (r, s0) \<Rightarrow>
          (case await r s0 of
             (Fulfilled, s1) \<Rightarrow> next_sample now B (Num 0) [] s1
           | (Failed e, s1) \<Rightarrow> Some (Inl (Rejected e), s1)
           | (Never, s1) \<Rightarrow> None))"

subsection \<open>Describing a run\<close>

text \<open>The test of line 61, on the running total and the number of samples.\<close>

definition stop_condition :: "js_number \<Rightarrow> nat \<Rightarrow> bool" where
  "stop_condition elapsed n \<longleftrightarrow> js_ge elapsed (Num 300) \<and> n > 210"

text \<open>
  The running total of line 68 for a list of samples: they are added one by one, from
  the left, to the \<open>0\<close> of line 56, each addition rounded.
\<close>

definition running_total :: "js_number list \<Rightarrow> js_number" where
  "running_total xs = foldl js_add (Num 0) xs"

text \<open>
  The sum of a list of samples as real numbers, without any rounding; \<open>None\<close> when a
  sample is not finite.
\<close>

fun exact_sum :: "js_number list \<Rightarrow> real option" where
  "exact_sum [] = Some 0"
| "exact_sum (Num x # xs) = (case exact_sum xs of None \<Rightarrow> None | Some t \<Rightarrow> Some (x + t))"
| "exact_sum (_ # xs) = None"

text \<open>
  The per-sample procedure of lines 65-69, repeated \<open>n\<close> times from a state without the
  test of line 61: the durations measured for the invocations \<open>1, \<dots>, n\<close> of \<open>bench\<close>, in
  this order, and the state they leave; \<open>None\<close> when one of these invocations fails or
  does not settle.
\<close>

fun take_samples ::
  "('s \<Rightarrow> js_number \<times> 's) \<Rightarrow> ('s, 'e) Benchmark_class \<Rightarrow> nat \<Rightarrow> 's
     \<Rightarrow> (js_number list \<times> 's) option"
where
  "take_samples now B 0 s = Some ([], s)"
| "take_samples now B (Suc n) s =
     (case now s of (start, s1) \<Rightarrow>
        (case invoke (bench B) s1 of
           (Fulfilled, s2) \<Rightarrow>
             (case now s2 of (end, s3) \<Rightarrow>
                (case take_samples now B n s3 of
                   None \<Rightarrow> None
                 | Some (ys, s') \<Rightarrow> Some (js_sub end start # ys, s')))
         | (Failed e, s2) \<Rightarrow> None
         | (Never, s2) \<Rightarrow> None))"

text \<open>
  The arguments of the \<open>k\<close>-th call of \<open>next\<close> that follows the call with the arguments
  given here, that is, the values of \<open>elapsed\<close> and \<open>samples\<close> and the state at that
  evaluation of line 61; \<open>None\<close> when the chain of calls ends before.
\<close>

fun nth_call ::
  "('s \<Rightarrow> js_number \<times> 's) \<Rightarrow> ('s, 'e) Benchmark_class \<Rightarrow> nat \<Rightarrow> js_number
     \<Rightarrow> js_number list \<Rightarrow> 's \<Rightarrow> (js_number \<times> js_number list \<times> 's) option"
where
  "nth_call now B 0 elapsed samples s = Some (elapsed, samples, s)"
| "nth_call now B (Suc k) elapsed samples s =
     (if js_ge elapsed (Num 300) \<and> length samples > 210 then None
      else
        (case now s of (start, s1) \<Rightarrow>
           (case invoke (bench B) s1 of
              (Fulfilled, s2) \<Rightarrow>
                (case now s2 of (end, s3) \<Rightarrow>
                   (let sample = js_sub end start
                    in nth_call now B k (js_add elapsed sample) (samples @ [sample]) s3))
            | (Failed e, s2) \<Rightarrow> None
            | (Never, s2) \<Rightarrow> None)))"

text \<open>What the promise of \<open>next\<close> becomes once \<open>teardown\<close> has been invoked.\<close>

fun after_teardown ::
  "'e outcome \<Rightarrow> js_number list \<Rightarrow> 's \<Rightarrow> (('e failure + js_number list) \<times> 's) option"
where
  "after_teardown Fulfilled xs s = Some (Inr xs, s)"
| "after_teardown (Failed e) xs s = Some (Inl (Rejected e), s)"
| "after_teardown Never xs s = None"

text \<open>
  How a chain of calls of \<open>next\<close> ends, seen from its last call: with the test of
  line 61 passed and \<open>teardown\<close> settled, or with the test failed and a failing
  invocation of \<open>bench\<close>.
\<close>

definition loop_end ::
  "('s \<Rightarrow> js_number \<times> 's) \<Rightarrow> ('s, 'e) Benchmark_class \<Rightarrow> js_number \<Rightarrow> js_number list
     \<Rightarrow> 's \<Rightarrow> ('e failure + js_number list) \<Rightarrow> 's \<Rightarrow> bool"
where
  "loop_end now B el xs s1 res s' \<longleftrightarrow>
     (stop_condition el (length xs) \<and>
        ((invoke (teardown B) s1 = (Fulfilled, s') \<and> res = Inr xs) \<or>
         (\<exists>e. invoke (teardown B) s1 = (Failed e, s') \<and> res = Inl (Rejected e))))
     \<or> (\<not> stop_condition el (length xs) \<and>
          (\<exists>start s2 e. now s1 = (start, s2) \<and> invoke (bench B) s2 = (Failed e, s') \<and>
               res = Inl (Rejected e)))"

subsection \<open>Observing the hooks\<close>

text \<open>
  An observer wraps each hook: it notes the call, and it notes the moment the hook has
  settled, which is the return or the throw of a hook that gives no promise, and the
  end of the promise's work otherwise (never, for a promise that stays pending). The
  notes are kept beside the state, where neither the hooks nor the timer reach them.
\<close>

datatype hook_name = Setup | Bench | Teardown

datatype event = Invoked hook_name | Settled hook_name

definition observe_promise ::
  "hook_name \<Rightarrow> ('s \<Rightarrow> 'e settlement \<times> 's) \<Rightarrow> 's \<times> event list
     \<Rightarrow> 'e settlement \<times> ('s \<times> event list)"
where
  "observe_promise h p =
     (\<lambda>(s, tr). case p s of
        (Pending, s') \<Rightarrow> (Pending, (s', tr))
      | (r, s') \<Rightarrow> (r, (s', tr @ [Settled h])))"

definition observe_hook :: "hook_name \<Rightarrow> ('s, 'e) hook \<Rightarrow> ('s \<times> event list, 'e) hook" where
  "observe_hook h f =
     (\<lambda>(s, tr). case f s of
        (Returns, s') \<Rightarrow> (Returns, (s', (tr @ [Invoked h]) @ [Settled h]))
      | (Throws e, s') \<Rightarrow> (Throws e, (s', (tr @ [Invoked h]) @ [Settled h]))
      | (Promise p, s') \<Rightarrow> (Promise (observe_promise h p), (s', tr @ [Invoked h])))"

definition observed :: "('s, 'e) Benchmark_class \<Rightarrow> ('s \<times> event list, 'e) Benchmark_class" where
  "observed B =
     \<lparr>getArguments = getArguments B,
      setup_hook = observe_hook Setup (setup_hook B),
      bench = observe_hook Bench (bench B),
      teardown = observe_hook Teardown (teardown B)\<rparr>"

definition observed_now ::
  "('s \<Rightarrow> js_number \<times> 's) \<Rightarrow> 's \<times> event list \<Rightarrow> js_number \<times> ('s \<times> event list)"
where
  "observed_now now = (\<lambda>(s, tr). case now s of (t, s') \<Rightarrow> (t, (s', tr)))"

text \<open>What the observer notes for one invocation.\<close>

fun hook_events :: "hook_name \<Rightarrow> 'e outcome \<Rightarrow> event list" where
  "hook_events h Never = [Invoked h]"
| "hook_events h out = [Invoked h, Settled h]"

text \<open>The notes of \<open>n\<close> invocations of \<open>bench\<close>, one settled before the next is made.\<close>

definition bench_events :: "nat \<Rightarrow> event list" where
  "bench_events n = concat (replicate n [Invoked Bench, Settled Bench])"

subsection \<open>Concrete timers and benchmarks\<close>

text \<open>
  A state that is a clock counting half units of time, and a timer that reads it: the
  readings are doubles as long as the count stays below \<open>2 ^ 53\<close>.
\<close>

definition clock_now :: "int \<Rightarrow> js_number \<times> int" where
  "clock_now h = (Num (of_int h / 2), h)"

text \<open>
  A subclass whose \<open>bench\<close> takes \<open>j\<close> half units of time and returns; the other hooks
  are inherited.
\<close>

definition fixed_duration :: "int \<Rightarrow> (int, string) Benchmark_class" where
  "fixed_duration j = Benchmark\<lparr>bench := (\<lambda>h. (Returns, h + j))\<rparr>"

text \<open>
  A subclass whose \<open>bench\<close> returns at once a promise, whose work takes \<open>j\<close> half units
  of time and fulfils it.
\<close>

definition deferred_duration :: "int \<Rightarrow> (int, string) Benchmark_class" where
  "deferred_duration j = Benchmark\<lparr>bench := (\<lambda>h. (Promise (\<lambda>h. (Resolves, h + j)), h))\<rparr>"

text \<open>
  A subclass whose \<open>bench\<close> takes 3/2 units twice and from then on returns a promise
  that is rejected.
\<close>

definition failing_bench :: "(int, string) Benchmark_class" where
  "failing_bench =
     Benchmark\<lparr>bench :=
       (\<lambda>h. if h \<ge> 6 then (Promise (\<lambda>h. (Rejects ''boom'', h)), h) else (Returns, h + 3))\<rparr>"

text \<open>A subclass whose hook \<open>setup\<close> throws.\<close>

definition failing_setup :: "(int, string) Benchmark_class" where
  "failing_setup = Benchmark\<lparr>setup_hook := (\<lambda>h. (Throws ''no data'', h))\<rparr>"

text \<open>
  A timer that steps back once: its readings are \<open>10, 5, 4, 6, 8, \<dots>\<close>; the state counts
  the readings.
\<close>

definition skewed_now :: "nat \<Rightarrow> js_number \<times> nat" where
  "skewed_now k =
     (if k = 0 then Num 10 else if k = 1 then Num 5 else Num (2 * real k), Suc k)"

text \<open>
  Three doubles: the one next below 300; a quarter of the distance between these two;
  and a little more than half of that distance.
\<close>

definition below_300 :: real where
  "below_300 = 300 - 1 / 2 ^ 44"

definition quarter_step :: real where
  "quarter_step = 1 / 2 ^ 46"

definition half_step_and_more :: real where
  "half_step_and_more = 1 / 2 ^ 45 + 1 / 2 ^ 60"


text \<open>
  A timer whose readings are \<open>0\<close> and \<open>below_300\<close> around the first invocation of
  \<open>bench\<close>, \<open>0\<close> and \<open>half_step_and_more\<close> around the second, and \<open>0\<close> ever after.
\<close>

definition rounding_now :: "nat \<Rightarrow> js_number \<times> nat" where
  "rounding_now k =
     (if k = 1 then Num below_300
      else if k = 3 then Num half_step_and_more else Num 0, Suc k)"

text \<open>
  A state that holds the instance \<open>this\<close> and the rest of the world; \<open>performance.now()\<close>
  reads a clock of the world and has no access to \<open>this\<close>.
\<close>

record 'w run_state =
  this :: Benchmark_instance
  world :: 'w

definition performance_now ::
  "('w \<Rightarrow> js_number \<times> 'w) \<Rightarrow> 'w run_state \<Rightarrow> js_number \<times> 'w run_state"
where
  "performance_now clk s = (case clk (world s) of (t, w') \<Rightarrow> (t, s\<lparr>world := w'\<rparr>))"

text \<open>A clock that advances by one unit at each reading.\<close>

definition ticking :: "int \<Rightarrow> js_number \<times> int" where
  "ticking w = (Num (of_int w), w + 1)"

section \<open>Properties\<close>

subsection \<open>Rounding\<close>

lemma ulp_pos: "0 < ulp x"
  by (simp add: ulp_def)

lemma huge_pos: "0 < huge"
  by (simp add: huge_def)

lemma below_huge: "x \<le> 2 ^ 53 \<Longrightarrow> x < huge"
proof -
  assume x: "x \<le> 2 ^ 53"
  have "(2 :: real) powr 53 < 2 powr 1024" by (subst powr_less_cancel_iff) simp_all
  moreover have "(2 :: real) ^ 53 = 2 powr 53" by simp
  ultimately show "x < huge" using x unfolding huge_def by linarith
qed

lemma nearest_even_of_int: "nearest_even (of_int j) = j"
  by (simp add: nearest_even_def)

lemma nearest_even_lower: "q - 1 / 2 \<le> of_int (nearest_even q)"
  unfolding nearest_even_def Let_def by (auto; linarith)

lemma nearest_even_upper: "of_int (nearest_even q) \<le> q + 1 / 2"
  unfolding nearest_even_def Let_def by (auto; linarith)

lemma nearest_even_nonneg: "0 \<le> q \<Longrightarrow> 0 \<le> nearest_even q"
  unfolding nearest_even_def Let_def by (auto; linarith)


lemma nearest_even_up:
  assumes "of_int n + 1 / 2 < q" and "q < of_int n + 1"
  shows "nearest_even q = n + 1"
proof -
  have "\<lfloor>q\<rfloor> = n" using assms by (intro floor_unique) simp_all
  with assms show ?thesis by (simp add: nearest_even_def)
qed

lemma binade_upper:
  assumes "x \<noteq> 0" and "\<bar>x\<bar> < 2 powr (of_int k + 1)" and "- 1022 \<le> k"
  shows "binade x \<le> k"
proof -
  have "log 2 \<bar>x\<bar> < of_int k + 1"
    using assms(1,2) by (simp add: log_less_iff)
  then have "\<lfloor>log 2 \<bar>x\<bar>\<rfloor> < k + 1" by (subst floor_less_iff) simp
  with assms(3) show ?thesis by (simp add: binade_def)
qed

lemma binade_eq:
  assumes "2 powr of_int k \<le> \<bar>x\<bar>" and "\<bar>x\<bar> < 2 powr (of_int k + 1)" and "- 1022 \<le> k"
  shows "binade x = k"
proof -
  have pos: "0 < \<bar>x\<bar>" using assms(1) by (smt (verit) powr_gt_zero)
  have "\<lfloor>log 2 \<bar>x\<bar>\<rfloor> = k"
    using assms(1,2) pos by (simp add: floor_log_eq_powr_iff)
  with assms(3) show ?thesis by (simp add: binade_def)
qed

text \<open>A real number with at most 53 significant bits and an exponent in range is a double.\<close>

lemma fl_exact:
  assumes m: "\<bar>m\<bar> < 2 ^ 53" and lo: "- 1074 \<le> e" and hi: "e \<le> 971"
  shows "fl (of_int m * 2 powr of_int e) = Num (of_int m * 2 powr of_int e)"
proof (cases "m = 0")
  case True
  then show ?thesis by (simp add: fl_def)
next
  case False
  let ?x = "of_int m * 2 powr of_int e :: real"
  have x0: "?x \<noteq> 0" using False by simp
  have absx: "\<bar>?x\<bar> = of_int \<bar>m\<bar> * 2 powr of_int e" by (simp add: abs_mult)
  have "of_int \<bar>m\<bar> < (2 ^ 53 :: real)" using m by (metis of_int_less_numeral_power_cancel_iff)
  then have "\<bar>?x\<bar> < 2 ^ 53 * 2 powr of_int e"
    unfolding absx by (simp add: mult_strict_right_mono)
  also have "\<dots> = 2 powr (of_int (e + 52) + 1)"
    by (simp add: powr_add)
  finally have lt: "\<bar>?x\<bar> < 2 powr (of_int (e + 52) + 1)" .
  have b: "binade ?x \<le> e + 52"
    using x0 lt lo by (intro binade_upper) simp_all
  define B where "B = binade ?x"
  define k where "k = nat (e + 52 - B)"
  have k: "real_of_int e = of_int (B - 52) + real k"
    using b by (simp add: k_def B_def)
  have "2 powr real_of_int e = 2 powr (of_int (B - 52) + real k)"
    by (simp only: k)
  also have "\<dots> = 2 powr of_int (B - 52) * 2 ^ k"
    by (simp only: powr_add) (simp add: powr_realpow)
  finally have "?x / 2 powr of_int (B - 52) = of_int (m * 2 ^ k)"
    by simp
  then have q: "?x / ulp ?x = of_int (m * 2 ^ k)"
    by (simp only: ulp_def B_def)
  have "of_int (nearest_even (?x / ulp ?x)) * ulp ?x = (?x / ulp ?x) * ulp ?x"
    by (simp only: q nearest_even_of_int)
  also have "\<dots> = ?x" using ulp_pos[of ?x] by simp
  finally have y: "of_int (nearest_even (?x / ulp ?x)) * ulp ?x = ?x" .
  have "of_int (e + 52) + 1 \<le> (1024 :: real)" using hi by simp
  then have "2 powr (of_int (e + 52) + 1) \<le> huge"
    unfolding huge_def by (subst powr_le_cancel_iff) simp_all
  with lt have "\<bar>?x\<bar> < huge" by linarith
  then have "\<not> huge \<le> ?x" "\<not> ?x \<le> - huge" by linarith+
  with x0 y show ?thesis by (simp add: fl_def Let_def)
qed

lemma fl_half: "\<bar>m\<bar> < 2 ^ 53 \<Longrightarrow> fl (of_int m / 2) = Num (of_int m / 2)"
  using fl_exact[of m "- 1"] by (simp add: powr_minus field_simps)

lemma fl_int: "\<bar>m\<bar> < 2 ^ 53 \<Longrightarrow> fl (of_int m) = Num (of_int m)"
  using fl_exact[of m 0] by simp

lemma js_add_half:
  assumes "\<bar>a\<bar> < 2 ^ 52" and "\<bar>b\<bar> < 2 ^ 52"
  shows "js_add (Num (of_int a / 2)) (Num (of_int b / 2)) = Num (of_int (a + b) / 2)"
proof -
  have "\<bar>a + b\<bar> < 2 ^ 53" using assms by simp
  from fl_half[OF this] show ?thesis by (simp add: add_divide_distrib)
qed

lemma js_sub_half:
  assumes "\<bar>a\<bar> < 2 ^ 52" and "\<bar>b\<bar> < 2 ^ 52"
  shows "js_sub (Num (of_int a / 2)) (Num (of_int b / 2)) = Num (of_int (a - b) / 2)"
proof -
  have "\<bar>a - b\<bar> < 2 ^ 53" using assms by simp
  from fl_half[OF this] show ?thesis by (simp add: diff_divide_distrib)
qed

lemma js_add_int:
  assumes "\<bar>a\<bar> < 2 ^ 52" and "\<bar>b\<bar> < 2 ^ 52"
  shows "js_add (Num (of_int a)) (Num (of_int b)) = Num (of_int (a + b))"
proof -
  have "\<bar>a + b\<bar> < 2 ^ 53" using assms by simp
  from fl_int[OF this] show ?thesis by simp
qed

lemma js_sub_int:
  assumes "\<bar>a\<bar> < 2 ^ 52" and "\<bar>b\<bar> < 2 ^ 52"
  shows "js_sub (Num (of_int a)) (Num (of_int b)) = Num (of_int (a - b))"
proof -
  have "\<bar>a - b\<bar> < 2 ^ 53" using assms by simp
  from fl_int[OF this] show ?thesis by simp
qed

text \<open>Rounding keeps the sign.\<close>

lemma fl_nonneg: "0 \<le> x \<Longrightarrow> js_ge (fl x) (Num 0)"
proof -
  assume x: "0 \<le> x"
  let ?y = "of_int (nearest_even (x / ulp x)) * ulp x"
  have "0 \<le> x / ulp x" using x ulp_pos[of x] by simp
  then have "0 \<le> nearest_even (x / ulp x)" by (rule nearest_even_nonneg)
  then have "0 \<le> ?y" using ulp_pos[of x] by simp
  with huge_pos show ?thesis by (auto simp: fl_def Let_def)
qed

text \<open>Between 256 and 512 the doubles are the multiples of \<open>1 / 2 ^ 44\<close>.\<close>

lemma ulp_binade8:
  assumes "256 \<le> x" and "x < 512"
  shows "ulp x = 1 / 2 ^ 44"
proof -
  have "binade x = 8"
    using assms by (intro binade_eq) simp_all
  then have "ulp x = 2 powr (- 44)" by (simp add: ulp_def)
  also have "\<dots> = 1 / 2 ^ 44" by (simp add: powr_minus_divide)
  finally show ?thesis .
qed

lemma fl_binade8:
  assumes "256 \<le> x" and "x < 512"
  shows "fl x = Num (of_int (nearest_even (x * 2 ^ 44)) / 2 ^ 44)"
proof -
  let ?n = "nearest_even (x * 2 ^ 44)"
  have u: "ulp x = 1 / 2 ^ 44" using assms by (rule ulp_binade8)
  have up: "of_int ?n \<le> x * 2 ^ 44 + 1 / 2" by (rule nearest_even_upper)
  have lo: "x * 2 ^ 44 - 1 / 2 \<le> of_int ?n" by (rule nearest_even_lower)
  have "real_of_int ?n / 2 ^ 44 \<le> (x * 2 ^ 44 + 1 / 2) / 2 ^ 44"
    using up by (simp only: divide_right_mono zero_le_power zero_le_numeral)
  also have "\<dots> = x + 1 / 2 ^ 45" by (simp add: add_divide_distrib)
  also have "\<dots> \<le> x + 1" by simp
  finally have "real_of_int ?n / 2 ^ 44 \<le> x + 1" .
  with assms(2) have "real_of_int ?n / 2 ^ 44 \<le> 2 ^ 53" by simp
  then have a: "real_of_int ?n / 2 ^ 44 < huge" by (rule below_huge)
  have "0 \<le> x * 2 ^ 44 - 1 / 2" using assms(1) by simp
  with lo have "(0 :: real) \<le> of_int ?n" by linarith
  then have "(0 :: real) \<le> real_of_int ?n / 2 ^ 44" by simp
  with huge_pos have b: "\<not> real_of_int ?n / 2 ^ 44 \<le> - huge" by linarith
  from assms(1) have "x \<noteq> 0" by simp
  with a b show ?thesis by (simp add: fl_def u Let_def)
qed




subsection \<open>The loop\<close>

lemma take_samples_length:
  "take_samples now B n s = Some (ys, s') \<Longrightarrow> length ys = n"
  by (induction n arbitrary: s ys)
     (auto split: prod.splits option.splits outcome.splits)

lemma take_samples_Suc_elim:
  assumes "take_samples now B (Suc n) s = Some (ys, s')"
  obtains start s1 s2 "end" s3 ys' where
    "now s = (start, s1)" "invoke (bench B) s1 = (Fulfilled, s2)"
    "now s2 = (end, s3)" "take_samples now B n s3 = Some (ys', s')"
    "ys = js_sub end start # ys'"
  using assms by (auto split: prod.splits option.splits outcome.splits)

lemma take_samples_Suc_intro:
  assumes "now s = (start, s1)" "invoke (bench B) s1 = (Fulfilled, s2)"
    "now s2 = (end, s3)" "take_samples now B n s3 = Some (ys', s')"
  shows "take_samples now B (Suc n) s = Some (js_sub end start # ys', s')"
  using assms by simp

lemma next_sample_step:
  assumes "\<not> stop_condition el (length xs)"
    and "now s = (start, s1)" "invoke (bench B) s1 = (Fulfilled, s2)"
    and "now s2 = (end, s3)"
  shows "next_sample now B el xs s =
         next_sample now B (js_add el (js_sub end start)) (xs @ [js_sub end start]) s3"
  using assms by (subst next_sample.simps) (auto simp: stop_condition_def Let_def)

lemma next_sample_fail:
  assumes "\<not> stop_condition el (length xs)"
    and "now s = (start, s1)" "invoke (bench B) s1 = (Failed e, s2)"
  shows "next_sample now B el xs s = Some (Inl (Rejected e), s2)"
  using assms by (subst next_sample.simps) (auto simp: stop_condition_def)

lemma next_sample_bench_pending:
  assumes "\<not> stop_condition el (length xs)"
    and "now s = (start, s1)" "invoke (bench B) s1 = (Never, s2)"
  shows "next_sample now B el xs s = None"
  using assms by (subst next_sample.simps) (auto simp: stop_condition_def)

lemma next_sample_stop:
  assumes "stop_condition el (length xs)" and "invoke (teardown B) s = (out, s')"
  shows "next_sample now B el xs s = after_teardown out xs s'"
  using assms
  by (subst next_sample.simps) (cases out; simp add: stop_condition_def)

text \<open>While the test of line 61 fails, \<open>next\<close> goes through the samples one by one.\<close>

lemma next_sample_skip:
  "take_samples now B n s = Some (ys, s') \<Longrightarrow>
   (\<forall>k<n. \<not> stop_condition (foldl js_add el (take k ys)) (length xs + k)) \<Longrightarrow>
   next_sample now B el xs s = next_sample now B (foldl js_add el ys) (xs @ ys) s'"
proof (induction n arbitrary: el xs s ys)
  case 0
  then show ?case by simp
next
  case (Suc n)
  from Suc.prems(1) obtain start s1 s2 "end" s3 ys' where
    st: "now s = (start, s1)" "invoke (bench B) s1 = (Fulfilled, s2)"
    "now s2 = (end, s3)" and rest: "take_samples now B n s3 = Some (ys', s')"
    and ys: "ys = js_sub end start # ys'"
    by (rule take_samples_Suc_elim)
  let ?d = "js_sub end start"
  from Suc.prems(2)[rule_format, of 0] have ns: "\<not> stop_condition el (length xs)" by simp
  have later: "\<forall>k<n. \<not> stop_condition (foldl js_add (js_add el ?d) (take k ys'))
                      (length (xs @ [?d]) + k)"
  proof (intro allI impI)
    fix k assume "k < n"
    then have "\<not> stop_condition (foldl js_add el (take (Suc k) ys)) (length xs + Suc k)"
      using Suc.prems(2)[rule_format, of "Suc k"] by simp
    then show "\<not> stop_condition (foldl js_add (js_add el ?d) (take k ys'))
                 (length (xs @ [?d]) + k)"
      by (simp add: ys)
  qed
  have "next_sample now B el xs s = next_sample now B (js_add el ?d) (xs @ [?d]) s3"
    using ns st by (rule next_sample_step)
  also have "\<dots> = next_sample now B (foldl js_add (js_add el ?d) ys') ((xs @ [?d]) @ ys') s'"
    using rest later by (rule Suc.IH)
  finally show ?case by (simp add: ys)
qed

text \<open>
  Every call of \<open>next\<close> that settles has taken some number of samples and then either
  passed the test of line 61 and seen \<open>teardown\<close> settle, or met a failing \<open>bench\<close>.
\<close>

lemma next_sample_cases:
  "next_sample now B el xs s = Some y \<Longrightarrow>
   \<exists>n ys s1. take_samples now B n s = Some (ys, s1) \<and>
     (\<forall>k<n. \<not> stop_condition (foldl js_add el (take k ys)) (length xs + k)) \<and>
     loop_end now B (foldl js_add el ys) (xs @ ys) s1 (fst y) (snd y)"
proof (induction rule: next_sample.raw_induct[rotated 1, consumes 1])
  case (1 nxt now B el xs s y)
  show ?case
  proof (cases "stop_condition el (length xs)")
    case True
    obtain out s' where td: "invoke (teardown B) s = (out, s')"
      by (cases "invoke (teardown B) s")
    from 1(2) True td have "loop_end now B (foldl js_add el []) (xs @ []) s (fst y) (snd y)"
      by (cases out) (auto simp: stop_condition_def loop_end_def)
    moreover have "take_samples now B 0 s = Some ([], s)" by simp
    ultimately show ?thesis
      by (intro exI[of _ 0] exI[of _ "[]"] exI[of _ s]) simp
  next
    case False
    obtain start s1 where n1: "now s = (start, s1)" by (cases "now s")
    obtain out s2 where b: "invoke (bench B) s1 = (out, s2)" by (cases "invoke (bench B) s1")
    show ?thesis
    proof (cases out)
      case Never
      with 1(2) False n1 b show ?thesis by (auto simp: stop_condition_def)
    next
      case (Failed e)
      with 1(2) False n1 b have "y = (Inl (Rejected e), s2)"
        by (auto simp: stop_condition_def)
      with False n1 b Failed
      have "loop_end now B (foldl js_add el []) (xs @ []) s (fst y) (snd y)"
        by (auto simp: loop_end_def)
      moreover have "take_samples now B 0 s = Some ([], s)" by simp
      ultimately show ?thesis
        by (intro exI[of _ 0] exI[of _ "[]"] exI[of _ s]) simp
    next
      case Fulfilled
      obtain "end" s3 where n2: "now s2 = (end, s3)" by (cases "now s2")
      let ?d = "js_sub end start"
      from 1(2) False n1 b Fulfilled n2
      have "nxt now B (js_add el ?d) (xs @ [?d]) s3 = Some y"
        by (auto simp: stop_condition_def Let_def)
      from 1(1)[OF this] obtain n ys sa where
        ts: "take_samples now B n s3 = Some (ys, sa)" and
        ns: "\<forall>k<n. \<not> stop_condition (foldl js_add (js_add el ?d) (take k ys))
                       (length (xs @ [?d]) + k)" and
        fin: "loop_end now B (foldl js_add (js_add el ?d) ys) ((xs @ [?d]) @ ys) sa
                (fst y) (snd y)"
        by blast
      have ts': "take_samples now B (Suc n) s = Some (?d # ys, sa)"
        using n1 b Fulfilled n2 ts by simp
      have ns': "\<forall>k<Suc n. \<not> stop_condition (foldl js_add el (take k (?d # ys)))
                               (length xs + k)"
      proof (intro allI impI)
        fix k assume k: "k < Suc n"
        show "\<not> stop_condition (foldl js_add el (take k (?d # ys))) (length xs + k)"
        proof (cases k)
          case 0
          with False show ?thesis by simp
        next
          case (Suc j)
          with k ns have "\<not> stop_condition (foldl js_add (js_add el ?d) (take j ys))
                             (length (xs @ [?d]) + j)"
            by simp
          with Suc show ?thesis by simp
        qed
      qed
      have fin': "loop_end now B (foldl js_add el (?d # ys)) (xs @ (?d # ys)) sa
                    (fst y) (snd y)"
        using fin by simp
      from ts' ns' fin' show ?thesis by blast
    qed
  qed
qed

subsection \<open>The run\<close>

lemma invoke_Fulfilled_not_Throws:
  "invoke h s = (Fulfilled, s0) \<Longrightarrow> \<exists>r sa. h s = (r, sa) \<and> (\<forall>e. r \<noteq> Throws e) \<and>
     await r sa = (Fulfilled, s0)"
  by (cases "h s") (auto simp: invoke_def)

lemma run_after_setup:
  assumes "invoke (setup_hook B) s = (Fulfilled, s0)"
  shows "run now B s = next_sample now B (Num 0) [] s0"
proof -
  from invoke_Fulfilled_not_Throws[OF assms] obtain r sa where
    h: "setup_hook B s = (r, sa)" and nt: "\<forall>e. r \<noteq> Throws e"
    and aw: "await r sa = (Fulfilled, s0)"
    by blast
  from h nt aw show ?thesis by (cases r) (simp_all add: run_def)
qed

lemma run_setup_fails:
  assumes "invoke (setup_hook B) s = (Failed e, s0)"
  shows "run now B s =
         Some (Inl (if fst (setup_hook B s) = Throws e then Thrown e else Rejected e), s0)"
proof -
  obtain r sa where h: "setup_hook B s = (r, sa)" by (cases "setup_hook B s")
  with assms have aw: "await r sa = (Failed e, s0)" by (simp add: invoke_def)
  show ?thesis
  proof (cases r)
    case Returns
    with aw show ?thesis by simp
  next
    case (Throws e')
    with aw h show ?thesis by (simp add: run_def)
  next
    case (Promise p)
    with aw h show ?thesis by (simp add: run_def)
  qed
qed

lemma run_setup_pending:
  assumes "invoke (setup_hook B) s = (Never, s0)"
  shows "run now B s = None"
proof -
  obtain r sa where h: "setup_hook B s = (r, sa)" by (cases "setup_hook B s")
  with assms have aw: "await r sa = (Never, s0)" by (simp add: invoke_def)
  with h show ?thesis by (cases r) (simp_all add: run_def)
qed

lemma run_returns:
  assumes "invoke (setup_hook B) s = (Fulfilled, s0)"
    and "take_samples now B n s0 = Some (ys, s1)"
    and "stop_condition (running_total ys) n"
    and "\<forall>k<n. \<not> stop_condition (running_total (take k ys)) k"
    and "invoke (teardown B) s1 = (out, s2)"
  shows "run now B s = after_teardown out ys s2"
proof -
  have len: "length ys = n" using assms(2) by (rule take_samples_length)
  have ns: "\<forall>k<n. \<not> stop_condition (foldl js_add (Num 0) (take k ys))
                     (length ([] :: js_number list) + k)"
    using assms(4) by (simp add: running_total_def)
  have st: "stop_condition (foldl js_add (Num 0) ys) (length ([] @ ys))"
    using assms(3) len by (simp add: running_total_def)
  have "run now B s = next_sample now B (Num 0) [] s0"
    using assms(1) by (rule run_after_setup)
  also have "\<dots> = next_sample now B (foldl js_add (Num 0) ys) ([] @ ys) s1"
    using assms(2) ns by (rule next_sample_skip)
  also have "\<dots> = after_teardown out ([] @ ys) s2"
    using st assms(5) by (rule next_sample_stop)
  finally show ?thesis by simp
qed

lemma run_bench_fails:
  assumes "invoke (setup_hook B) s = (Fulfilled, s0)"
    and "take_samples now B n s0 = Some (ys, s1)"
    and "\<forall>k\<le>n. \<not> stop_condition (running_total (take k ys)) k"
    and "now s1 = (start, s2)" and "invoke (bench B) s2 = (Failed e, s3)"
  shows "run now B s = Some (Inl (Rejected e), s3)"
proof -
  have len: "length ys = n" using assms(2) by (rule take_samples_length)
  have ns: "\<forall>k<n. \<not> stop_condition (foldl js_add (Num 0) (take k ys))
                     (length ([] :: js_number list) + k)"
    using assms(3) by (simp add: running_total_def)
  from assms(3)[rule_format, of n] len
  have last: "\<not> stop_condition (foldl js_add (Num 0) ys) (length ([] @ ys))"
    by (simp add: running_total_def)
  have "run now B s = next_sample now B (Num 0) [] s0"
    using assms(1) by (rule run_after_setup)
  also have "\<dots> = next_sample now B (foldl js_add (Num 0) ys) ([] @ ys) s1"
    using assms(2) ns by (rule next_sample_skip)
  also have "\<dots> = Some (Inl (Rejected e), s3)"
    using last assms(4,5) by (rule next_sample_fail)
  finally show ?thesis .
qed

text \<open>How a run that settles went.\<close>

lemma run_cases:
  assumes "run now B s = Some (res, s')"
  shows "(\<exists>e. invoke (setup_hook B) s = (Failed e, s') \<and>
              res = Inl (if fst (setup_hook B s) = Throws e then Thrown e else Rejected e))
         \<or> (\<exists>s0 n ys s1. invoke (setup_hook B) s = (Fulfilled, s0) \<and>
               take_samples now B n s0 = Some (ys, s1) \<and>
               (\<forall>k<n. \<not> stop_condition (running_total (take k ys)) k) \<and>
               loop_end now B (running_total ys) ys s1 res s')"
proof -
  obtain out s0 where su: "invoke (setup_hook B) s = (out, s0)"
    by (cases "invoke (setup_hook B) s")
  show ?thesis
  proof (cases out)
    case Never
    with su assms show ?thesis by (simp add: run_setup_pending)
  next
    case (Failed e)
    with su assms show ?thesis by (auto simp: run_setup_fails)
  next
    case Fulfilled
    with su assms have "next_sample now B (Num 0) [] s0 = Some (res, s')"
      by (simp add: run_after_setup)
    from next_sample_cases[OF this] obtain n ys s1 where
      "take_samples now B n s0 = Some (ys, s1)"
      "\<forall>k<n. \<not> stop_condition (running_total (take k ys)) k"
      "loop_end now B (running_total ys) ys s1 res s'"
      by (auto simp: running_total_def)
    with su Fulfilled show ?thesis by blast
  qed
qed

lemma run_Inr_cases:
  assumes "run now B s = Some (Inr xs, s')"
  shows "\<exists>s0 s1. invoke (setup_hook B) s = (Fulfilled, s0) \<and>
           take_samples now B (length xs) s0 = Some (xs, s1) \<and>
           stop_condition (running_total xs) (length xs) \<and>
           (\<forall>k<length xs. \<not> stop_condition (running_total (take k xs)) k) \<and>
           invoke (teardown B) s1 = (Fulfilled, s')"
proof -
  from run_cases[OF assms] obtain s0 n ys s1 where
    su: "invoke (setup_hook B) s = (Fulfilled, s0)" and
    ts: "take_samples now B n s0 = Some (ys, s1)" and
    ns: "\<forall>k<n. \<not> stop_condition (running_total (take k ys)) k" and
    le: "loop_end now B (running_total ys) ys s1 (Inr xs) s'"
    by auto
  from le have st: "stop_condition (running_total ys) (length ys)"
    and td: "invoke (teardown B) s1 = (Fulfilled, s')" and xs: "xs = ys"
    by (auto simp: loop_end_def)
  have "length ys = n" using ts by (rule take_samples_length)
  with su ts ns st td xs show ?thesis by auto
qed

subsection \<open>The samples one by one\<close>

lemma take_samples_nth:
  "take_samples now B n s = Some (ys, s') \<Longrightarrow> k < n \<Longrightarrow>
   \<exists>sk start sa sb end sc.
     take_samples now B k s = Some (take k ys, sk) \<and> now sk = (start, sa) \<and>
     invoke (bench B) sa = (Fulfilled, sb) \<and> now sb = (end, sc) \<and>
     ys ! k = js_sub end start"
proof (induction n arbitrary: k s ys)
  case 0
  then show ?case by simp
next
  case (Suc n)
  from Suc.prems(1) obtain start s1 s2 "end" s3 ys' where
    st: "now s = (start, s1)" "invoke (bench B) s1 = (Fulfilled, s2)"
    "now s2 = (end, s3)" and rest: "take_samples now B n s3 = Some (ys', s')"
    and ys: "ys = js_sub end start # ys'"
    by (rule take_samples_Suc_elim)
  show ?case
  proof (cases k)
    case 0
    have "take_samples now B 0 s = Some (take 0 ys, s)" by simp
    with st ys 0 show ?thesis by fastforce
  next
    case (Suc j)
    with Suc.prems(2) have "j < n" by simp
    from Suc.IH[OF rest this] obtain sj start' sa sb end' sc where
      tj: "take_samples now B j s3 = Some (take j ys', sj)" and
      m: "now sj = (start', sa)" "invoke (bench B) sa = (Fulfilled, sb)"
      "now sb = (end', sc)" "ys' ! j = js_sub end' start'"
      by blast
    have "take_samples now B (Suc j) s = Some (take (Suc j) ys, sj)"
      using st tj by (simp add: ys)
    with m Suc ys show ?thesis by fastforce
  qed
qed


subsection \<open>The calls of \<open>next\<close>\<close>

lemma nth_call_invariant:
  "nth_call now B k el xs s = Some (el', xs', s') \<Longrightarrow>
   (\<exists>ys. xs' = xs @ ys \<and> length ys = k \<and> el' = foldl js_add el ys) \<and>
   next_sample now B el xs s = next_sample now B el' xs' s'"
proof (induction k arbitrary: el xs s)
  case 0
  then show ?case by simp
next
  case (Suc k)
  from Suc.prems have ns: "\<not> stop_condition el (length xs)"
    by (auto simp: stop_condition_def split: if_splits)
  obtain start s1 where n1: "now s = (start, s1)" by (cases "now s")
  obtain out s2 where b: "invoke (bench B) s1 = (out, s2)" by (cases "invoke (bench B) s1")
  obtain "end" s3 where n2: "now s2 = (end, s3)" by (cases "now s2")
  from Suc.prems ns n1 b have ok: "out = Fulfilled"
    by (cases out) (auto simp: stop_condition_def)
  let ?d = "js_sub end start"
  from Suc.prems ns n1 b ok n2
  have "nth_call now B k (js_add el ?d) (xs @ [?d]) s3 = Some (el', xs', s')"
    by (auto simp: stop_condition_def Let_def)
  from Suc.IH[OF this] obtain ys where
    ys: "xs' = (xs @ [?d]) @ ys" "length ys = k" "el' = foldl js_add (js_add el ?d) ys"
    and nx: "next_sample now B (js_add el ?d) (xs @ [?d]) s3 = next_sample now B el' xs' s'"
    by blast
  from ys have "xs' = xs @ (?d # ys) \<and> length (?d # ys) = Suc k \<and>
                el' = foldl js_add el (?d # ys)"
    by simp
  moreover from next_sample_step[OF ns n1 b[unfolded ok] n2] nx
  have "next_sample now B el xs s = next_sample now B el' xs' s'" by simp
  ultimately show ?case by blast
qed

lemma nth_call_take_samples:
  "take_samples now B n s = Some (ys, s') \<Longrightarrow>
   (\<forall>k<n. \<not> stop_condition (foldl js_add el (take k ys)) (length xs + k)) \<Longrightarrow>
   nth_call now B n el xs s = Some (foldl js_add el ys, xs @ ys, s')"
proof (induction n arbitrary: el xs s ys)
  case 0
  then show ?case by simp
next
  case (Suc n)
  from Suc.prems(1) obtain start s1 s2 "end" s3 ys' where
    st: "now s = (start, s1)" "invoke (bench B) s1 = (Fulfilled, s2)"
    "now s2 = (end, s3)" and rest: "take_samples now B n s3 = Some (ys', s')"
    and ys: "ys = js_sub end start # ys'"
    by (rule take_samples_Suc_elim)
  let ?d = "js_sub end start"
  from Suc.prems(2)[rule_format, of 0] have ns: "\<not> stop_condition el (length xs)" by simp
  have later: "\<forall>k<n. \<not> stop_condition (foldl js_add (js_add el ?d) (take k ys'))
                      (length (xs @ [?d]) + k)"
  proof (intro allI impI)
    fix k assume "k < n"
    then have "\<not> stop_condition (foldl js_add el (take (Suc k) ys)) (length xs + Suc k)"
      using Suc.prems(2)[rule_format, of "Suc k"] by simp
    then show "\<not> stop_condition (foldl js_add (js_add el ?d) (take k ys'))
                 (length (xs @ [?d]) + k)"
      by (simp add: ys)
  qed
  from Suc.IH[OF rest later] ns st show ?case
    by (auto simp: stop_condition_def ys Let_def)
qed

subsection \<open>Observed runs\<close>

lemma bench_events_Suc:
  "bench_events (Suc n) = [Invoked Bench, Settled Bench] @ bench_events n"
  by (simp add: bench_events_def)

lemma bench_events_snoc:
  "bench_events n @ [Invoked Bench, Settled Bench] = bench_events (Suc n)"
  by (induction n) (simp_all add: bench_events_def)

lemma bench_events_count:
  "length (filter (\<lambda>e. e = Invoked Bench) (bench_events n)) = n"
  by (induction n) (simp_all add: bench_events_def)

lemma bench_events_no_teardown:
  "Invoked Teardown \<notin> set (bench_events n)"
  by (induction n) (simp_all add: bench_events_def)

lemma invoke_observe_hook:
  "invoke (observe_hook h f) (s, tr) =
     (case invoke f s of (out, s') \<Rightarrow> (out, (s', tr @ hook_events h out)))"
proof -
  obtain r s' where f: "f s = (r, s')" by (cases "f s")
  show ?thesis
  proof (cases r)
    case Returns
    with f show ?thesis by (simp add: invoke_def observe_hook_def)
  next
    case (Throws e)
    with f show ?thesis by (simp add: invoke_def observe_hook_def)
  next
    case (Promise p)
    obtain r' s'' where p: "p s' = (r', s'')" by (cases "p s'")
    with f Promise show ?thesis
      by (cases r') (simp_all add: invoke_def observe_hook_def observe_promise_def)
  qed
qed

lemma invoke_observe_hook_elim:
  assumes "invoke (observe_hook h f) (s, tr) = (out, \<sigma>)"
  obtains s' where "invoke f s = (out, s')" "\<sigma> = (s', tr @ hook_events h out)"
  using assms by (auto simp: invoke_observe_hook split: prod.splits)

lemma observe_hook_Throws:
  "fst (observe_hook h f (s, tr)) = Throws e \<longleftrightarrow> fst (f s) = Throws e"
proof -
  obtain r s' where f: "f s = (r, s')" by (cases "f s")
  then show ?thesis by (cases r) (simp_all add: observe_hook_def)
qed

lemma observed_simps:
  "setup_hook (observed B) = observe_hook Setup (setup_hook B)"
  "bench (observed B) = observe_hook Bench (bench B)"
  "teardown (observed B) = observe_hook Teardown (teardown B)"
  "observed_now now (s, tr) = (case now s of (t, s') \<Rightarrow> (t, (s', tr)))"
  by (simp_all add: observed_def observed_now_def)

lemma take_samples_observed:
  "take_samples (observed_now now) (observed B) n (s, tr) =
     (case take_samples now B n s of
        None \<Rightarrow> None
      | Some (ys, s') \<Rightarrow> Some (ys, (s', tr @ bench_events n)))"
proof (induction n arbitrary: s tr)
  case 0
  show ?case by (simp add: bench_events_def)
next
  case (Suc n)
  obtain start s1 where n1: "now s = (start, s1)" by (cases "now s")
  obtain out s2 where b: "invoke (bench B) s1 = (out, s2)" by (cases "invoke (bench B) s1")
  obtain "end" s3 where n2: "now s2 = (end, s3)" by (cases "now s2")
  show ?case
    using n1 b n2
    by (cases out)
       (simp_all add: Suc.IH bench_events_Suc observed_simps invoke_observe_hook
          split: option.splits)
qed

lemma take_samples_observed_elim:
  assumes "take_samples (observed_now now) (observed B) n (s, tr) = Some (ys, \<sigma>)"
  obtains s1 where "\<sigma> = (s1, tr @ bench_events n)" "take_samples now B n s = Some (ys, s1)"
  using assms by (auto simp: take_samples_observed split: option.splits)

lemma run_observed_setup_fails:
  assumes "invoke (setup_hook B) s = (Failed e, s0)"
  shows "run (observed_now now) (observed B) (s, tr) =
         Some (Inl (if fst (setup_hook B s) = Throws e then Thrown e else Rejected e),
               (s0, tr @ [Invoked Setup, Settled Setup]))"
proof -
  have "invoke (setup_hook (observed B)) (s, tr) =
          (Failed e, (s0, tr @ [Invoked Setup, Settled Setup]))"
    using assms by (simp add: observed_simps invoke_observe_hook)
  from run_setup_fails[OF this] show ?thesis
    by (simp add: observed_simps observe_hook_Throws)
qed

lemma run_observed_stops:
  assumes "invoke (setup_hook B) s = (Fulfilled, s0)"
    and "take_samples now B n s0 = Some (ys, s1)"
    and "stop_condition (running_total ys) n"
    and "\<forall>k<n. \<not> stop_condition (running_total (take k ys)) k"
    and "invoke (teardown B) s1 = (out, s2)"
  shows "run (observed_now now) (observed B) (s, tr) =
         after_teardown out ys
           (s2, tr @ [Invoked Setup, Settled Setup] @ bench_events n @ hook_events Teardown out)"
proof -
  let ?t0 = "tr @ [Invoked Setup, Settled Setup]"
  let ?t1 = "?t0 @ bench_events n"
  have su': "invoke (setup_hook (observed B)) (s, tr) = (Fulfilled, (s0, ?t0))"
    using assms(1) by (simp add: observed_simps invoke_observe_hook)
  have ts': "take_samples (observed_now now) (observed B) n (s0, ?t0) = Some (ys, (s1, ?t1))"
    using assms(2) by (simp add: take_samples_observed)
  have td': "invoke (teardown (observed B)) (s1, ?t1) = (out, (s2, ?t1 @ hook_events Teardown out))"
    using assms(5) by (simp add: observed_simps invoke_observe_hook)
  from run_returns[OF su' ts' assms(3,4) td'] show ?thesis by simp
qed

lemma run_observed_bench_fails:
  assumes "invoke (setup_hook B) s = (Fulfilled, s0)"
    and "take_samples now B n s0 = Some (ys, s1)"
    and "\<forall>k\<le>n. \<not> stop_condition (running_total (take k ys)) k"
    and "now s1 = (start, s2)" and "invoke (bench B) s2 = (Failed e, s3)"
  shows "run (observed_now now) (observed B) (s, tr) =
         Some (Inl (Rejected e),
               (s3, tr @ [Invoked Setup, Settled Setup] @ bench_events (Suc n)))"
proof -
  let ?t0 = "tr @ [Invoked Setup, Settled Setup]"
  let ?t1 = "?t0 @ bench_events n"
  have su': "invoke (setup_hook (observed B)) (s, tr) = (Fulfilled, (s0, ?t0))"
    using assms(1) by (simp add: observed_simps invoke_observe_hook)
  have ts': "take_samples (observed_now now) (observed B) n (s0, ?t0) = Some (ys, (s1, ?t1))"
    using assms(2) by (simp add: take_samples_observed)
  have n': "observed_now now (s1, ?t1) = (start, (s2, ?t1))"
    using assms(4) by (simp add: observed_simps)
  have b': "invoke (bench (observed B)) (s2, ?t1) =
              (Failed e, (s3, ?t1 @ [Invoked Bench, Settled Bench]))"
    using assms(5) by (simp add: observed_simps invoke_observe_hook)
  from run_bench_fails[OF su' ts' assms(3) n' b']
  show ?thesis by (simp add: bench_events_snoc[symmetric])
qed

lemma run_observed_success:
  assumes "run now B s = Some (Inr xs, s')"
  shows "run (observed_now now) (observed B) (s, tr) =
         Some (Inr xs, (s', tr @ [Invoked Setup, Settled Setup] @ bench_events (length xs)
                               @ [Invoked Teardown, Settled Teardown]))"
proof -
  from run_Inr_cases[OF assms] obtain s0 s1 where
    su: "invoke (setup_hook B) s = (Fulfilled, s0)" and
    ts: "take_samples now B (length xs) s0 = Some (xs, s1)" and
    st: "stop_condition (running_total xs) (length xs)" and
    ns: "\<forall>k<length xs. \<not> stop_condition (running_total (take k xs)) k" and
    td: "invoke (teardown B) s1 = (Fulfilled, s')"
    by blast
  from run_observed_stops[OF su ts st ns td, of tr] show ?thesis by simp
qed

subsection \<open>Runs of the concrete timers and benchmarks\<close>

lemma Benchmark_invoke:
  "invoke (setup_hook Benchmark) s = (Fulfilled, s)"
  "invoke (bench Benchmark) s = (Fulfilled, s)"
  "invoke (teardown Benchmark) s = (Fulfilled, s)"
  by (simp_all add: Benchmark_def invoke_def)

lemma fixed_duration_invoke:
  "invoke (setup_hook (fixed_duration j)) h = (Fulfilled, h)"
  "invoke (bench (fixed_duration j)) h = (Fulfilled, h + j)"
  "invoke (teardown (fixed_duration j)) h = (Fulfilled, h)"
  by (simp_all add: fixed_duration_def Benchmark_def invoke_def)

lemma deferred_duration_invoke:
  "invoke (setup_hook (deferred_duration j)) h = (Fulfilled, h)"
  "invoke (bench (deferred_duration j)) h = (Fulfilled, h + j)"
  "invoke (teardown (deferred_duration j)) h = (Fulfilled, h)"
  by (simp_all add: deferred_duration_def Benchmark_def invoke_def)

lemma take_samples_clock:
  assumes "\<And>h. invoke (bench B) h = (Fulfilled, h + j)" and "0 \<le> j"
  shows "0 \<le> h \<Longrightarrow> h + int n * j < 2 ^ 52 \<Longrightarrow>
         take_samples clock_now B n h = Some (replicate n (Num (of_int j / 2)), h + int n * j)"
proof (induction n arbitrary: h)
  case 0
  show ?case by simp
next
  case (Suc n)
  define q where "q = int n * j"
  have q: "0 \<le> q" using assms(2) by (simp add: q_def)
  have tot: "h + int (Suc n) * j = h + j + q" by (simp add: q_def algebra_simps)
  with Suc.prems(2) have lt: "h + j + q < 2 ^ 52" by simp
  from lt q Suc.prems(1) assms(2) have b: "\<bar>h\<bar> < 2 ^ 52" "\<bar>h + j\<bar> < 2 ^ 52"
    by simp_all
  from js_sub_half[OF b(2) b(1)]
  have d: "js_sub (Num (of_int (h + j) / 2)) (Num (of_int h / 2)) = Num (of_int j / 2)"
    by simp
  have "0 \<le> h + j" using Suc.prems(1) assms(2) by simp
  moreover have "h + j + int n * j < 2 ^ 52" using lt by (simp add: q_def)
  ultimately have
    "take_samples clock_now B n (h + j) =
       Some (replicate n (Num (of_int j / 2)), h + j + int n * j)"
    by (rule Suc.IH)
  moreover have "clock_now h = (Num (of_int h / 2), h)"
    "clock_now (h + j) = (Num (of_int (h + j) / 2), h + j)"
    by (simp_all add: clock_now_def)
  ultimately
  have "take_samples clock_now B (Suc n) h =
          Some (js_sub (Num (of_int (h + j) / 2)) (Num (of_int h / 2))
                  # replicate n (Num (of_int j / 2)), h + j + int n * j)"
    using assms(1) by (intro take_samples_Suc_intro)
  then show ?case by (simp only: d tot q_def) simp
qed

lemma foldl_js_add_halves:
  "0 \<le> a \<Longrightarrow> 0 \<le> j \<Longrightarrow> a + int n * j < 2 ^ 52 \<Longrightarrow>
   foldl js_add (Num (of_int a / 2)) (replicate n (Num (of_int j / 2))) =
     Num (of_int (a + int n * j) / 2)"
proof (induction n arbitrary: a)
  case 0
  show ?case by simp
next
  case (Suc n)
  define q where "q = int n * j"
  have q: "0 \<le> q" using Suc.prems(2) by (simp add: q_def)
  have tot: "a + int (Suc n) * j = a + j + q" by (simp add: q_def algebra_simps)
  with Suc.prems(3) have lt: "a + j + q < 2 ^ 52" by simp
  from lt q Suc.prems(1,2) have b: "\<bar>a\<bar> < 2 ^ 52" "\<bar>j\<bar> < 2 ^ 52"
    by simp_all
  have "0 \<le> a + j" using Suc.prems by simp
  moreover have "a + j + int n * j < 2 ^ 52" using lt by (simp add: q_def)
  ultimately have
    "foldl js_add (Num (of_int (a + j) / 2)) (replicate n (Num (of_int j / 2))) =
       Num (of_int (a + j + int n * j) / 2)"
    using Suc.prems(2) by (intro Suc.IH)
  with js_add_half[OF b] show ?case by (simp only: tot q_def) simp
qed

lemma running_total_halves:
  assumes "0 \<le> j" and "int n * j < 2 ^ 52"
  shows "running_total (replicate n (Num (of_int j / 2))) = Num (of_int (int n * j) / 2)"
  using foldl_js_add_halves[of 0 j n] assms by (simp add: running_total_def)

lemma stop_condition_halves:
  "stop_condition (Num (of_int q / 2)) k \<longleftrightarrow> 600 \<le> q \<and> 210 < k"
proof -
  have "(300 \<le> real_of_int q / 2) = (600 \<le> q)" by linarith
  then show ?thesis by (simp only: stop_condition_def js_ge.simps)
qed

lemma run_clock:
  assumes su: "invoke (setup_hook B) 0 = (Fulfilled, 0)"
    and b: "\<And>h. invoke (bench B) h = (Fulfilled, h + j)"
    and td: "\<And>h. invoke (teardown B) h = (Fulfilled, h)"
    and j: "0 \<le> j" and lt: "int n * j < 2 ^ 52"
    and enough: "600 \<le> int n * j" and count: "210 < n"
    and first: "\<forall>k<n. \<not> (600 \<le> int k * j \<and> 210 < k)"
  shows "run clock_now B 0 = Some (Inr (replicate n (Num (of_int j / 2))), int n * j)"
proof -
  let ?ys = "replicate n (Num (of_int j / 2))"
  have ts: "take_samples clock_now B n 0 = Some (?ys, int n * j)"
    using take_samples_clock[OF b j, of 0 n] lt by simp
  have st: "stop_condition (running_total ?ys) n"
    using enough count
    by (simp only: running_total_halves[OF j lt] stop_condition_halves)
  have ns: "\<forall>k<n. \<not> stop_condition (running_total (take k ?ys)) k"
  proof (intro allI impI)
    fix k assume k: "k < n"
    have "int k * j \<le> int n * j" using k j by (simp add: mult_right_mono)
    with lt have ltk: "int k * j < 2 ^ 52" by linarith
    have "take k ?ys = replicate k (Num (of_int j / 2))" using k by (simp add: min_def)
    moreover have "\<not> (600 \<le> int k * j \<and> 210 < k)" using first k by blast
    ultimately show "\<not> stop_condition (running_total (take k ?ys)) k"
      by (simp only: running_total_halves[OF j ltk] stop_condition_halves) simp
  qed
  from run_returns[OF su ts st ns td] show ?thesis by simp
qed

lemma run_scenario_A:
  "run clock_now (fixed_duration 3) 0 = Some (Inr (replicate 211 (Num (3 / 2))), 633)"
  using run_clock[of "fixed_duration 3" 3 211] by (simp add: fixed_duration_invoke)

lemma run_scenario_B:
  "run clock_now (fixed_duration 100) 0 = Some (Inr (replicate 211 (Num 50)), 21100)"
  using run_clock[of "fixed_duration 100" 100 211] by (simp add: fixed_duration_invoke)

lemma run_deferred:
  "run clock_now (deferred_duration 3) 0 = Some (Inr (replicate 211 (Num (3 / 2))), 633)"
  using run_clock[of "deferred_duration 3" 3 211] by (simp add: deferred_duration_invoke)

lemma fl_numerals:
  "fl 1 = Num 1" "fl 2 = Num 2" "fl (- 5) = Num (- 5)" "fl 300 = Num 300"
  "fl (3 / 2) = Num (3 / 2)" "fl 3 = Num 3"
  using fl_int[of 1] fl_int[of 2] fl_int[of "- 5"] fl_int[of 300] fl_half[of 3] fl_int[of 3]
  by simp_all

lemma foldl_js_add_ints:
  "0 \<le> j \<Longrightarrow> \<bar>a\<bar> + int n * j < 2 ^ 52 \<Longrightarrow>
   foldl js_add (Num (of_int a)) (replicate n (Num (of_int j))) = Num (of_int (a + int n * j))"
proof (induction n arbitrary: a)
  case 0
  show ?case by simp
next
  case (Suc n)
  define q where "q = int n * j"
  have q: "0 \<le> q" using Suc.prems(1) by (simp add: q_def)
  have tot: "a + int (Suc n) * j = a + j + q" "\<bar>a\<bar> + int (Suc n) * j = \<bar>a\<bar> + j + q"
    by (simp_all add: q_def algebra_simps)
  with Suc.prems(2) have lt: "\<bar>a\<bar> + j + q < 2 ^ 52" by simp
  from lt q Suc.prems(1) have b: "\<bar>a\<bar> < 2 ^ 52" "\<bar>j\<bar> < 2 ^ 52"
    by simp_all
  have "\<bar>a + j\<bar> + int n * j < 2 ^ 52" using lt Suc.prems(1) by (simp add: q_def)
  with Suc.prems(1) have
    "foldl js_add (Num (of_int (a + j))) (replicate n (Num (of_int j))) =
       Num (of_int (a + j + int n * j))"
    by (intro Suc.IH)
  with js_add_int[OF b] show ?case by (simp only: tot q_def) simp
qed

lemma take_samples_skewed:
  "2 \<le> k \<Longrightarrow>
   take_samples skewed_now (Benchmark :: (nat, 'e) Benchmark_class) n k =
     Some (replicate n (Num 2), k + 2 * n)"
  by (induction n arbitrary: k)
     (simp_all add: skewed_now_def Benchmark_invoke fl_numerals)

lemma running_total_twos:
  "n < 2 ^ 50 \<Longrightarrow> running_total (replicate n (Num 2)) = Num (2 * real n)"
  using foldl_js_add_ints[of 2 0 n] by (simp add: running_total_def)

lemma running_total_skewed:
  "n < 2 ^ 50 \<Longrightarrow> running_total (Num (- 5) # replicate n (Num 2)) = Num (2 * real n - 5)"
  using foldl_js_add_ints[of 2 "- 5" n] by (simp add: running_total_def fl_numerals)

lemma run_skewed:
  "run skewed_now (Benchmark :: (nat, 'e) Benchmark_class) 0 =
     Some (Inr (Num (- 5) # replicate 210 (Num 2)), 422)"
proof -
  let ?B = "Benchmark :: (nat, 'e) Benchmark_class"
  let ?ys = "Num (- 5) # replicate 210 (Num 2)"
  have "take_samples skewed_now ?B (Suc 210) 0 = Some (?ys, 422)"
    by (subst take_samples.simps(2))
       (simp add: skewed_now_def Benchmark_invoke take_samples_skewed fl_numerals)
  then have ts: "take_samples skewed_now ?B 211 0 = Some (?ys, 422)"
    by simp
  have st: "stop_condition (running_total ?ys) 211"
    by (simp add: running_total_skewed stop_condition_def)
  have ns: "\<forall>k<211. \<not> stop_condition (running_total (take k ?ys)) k"
    by (simp add: stop_condition_def)
  from run_returns[OF Benchmark_invoke(1) ts st ns Benchmark_invoke(3)] show ?thesis by simp
qed

lemma run_skewed_later:
  "run skewed_now (Benchmark :: (nat, 'e) Benchmark_class) 2 =
     Some (Inr (replicate 211 (Num 2)), 424)"
proof -
  let ?B = "Benchmark :: (nat, 'e) Benchmark_class"
  let ?ys = "replicate 211 (Num 2)"
  have ts: "take_samples skewed_now ?B 211 2 = Some (?ys, 424)"
    by (simp add: take_samples_skewed)
  have st: "stop_condition (running_total ?ys) 211"
    by (simp add: running_total_twos stop_condition_def)
  have ns: "\<forall>k<211. \<not> stop_condition (running_total (take k ?ys)) k"
    by (simp add: stop_condition_def)
  from run_returns[OF Benchmark_invoke(1) ts st ns Benchmark_invoke(3)] show ?thesis by simp
qed

lemma performance_now_this:
  "performance_now clk s = (t, s1) \<Longrightarrow> this s1 = this s"
  by (auto simp: performance_now_def split: prod.splits)

lemma take_samples_this:
  "take_samples (performance_now clk) (Benchmark :: ('w run_state, 'e) Benchmark_class) n s
     = Some (ys, s1) \<Longrightarrow> this s1 = this s"
proof (induction n arbitrary: s ys)
  case 0
  then show ?case by simp
next
  case (Suc n)
  from Suc.prems obtain start sa sb "end" sc ys' where
    st: "performance_now clk s = (start, sa)"
    "invoke (bench (Benchmark :: ('w run_state, 'e) Benchmark_class)) sa = (Fulfilled, sb)"
    "performance_now clk sb = (end, sc)"
    and rest: "take_samples (performance_now clk)
                 (Benchmark :: ('w run_state, 'e) Benchmark_class) n sc = Some (ys', s1)"
    and "ys = js_sub end start # ys'"
    by (rule take_samples_Suc_elim)
  from st(2) have "sb = sa" by (simp add: Benchmark_invoke)
  with performance_now_this[OF st(1)] performance_now_this[OF st(3)] Suc.IH[OF rest]
  show ?case by simp
qed

lemma take_samples_ticking:
  "take_samples (performance_now ticking) Benchmark n s =
     Some (replicate n (Num 1), s\<lparr>world := world s + 2 * int n\<rparr>)"
  by (induction n arbitrary: s)
     (simp_all add: performance_now_def ticking_def Benchmark_invoke fl_numerals algebra_simps)

lemma running_total_ones:
  "n < 2 ^ 50 \<Longrightarrow> running_total (replicate n (Num 1)) = Num (real n)"
  using foldl_js_add_ints[of 1 0 n] by (simp add: running_total_def)

lemma run_ticking:
  "run (performance_now ticking) Benchmark \<lparr>this = b, world = 0\<rparr> =
     Some (Inr (replicate 300 (Num 1)), \<lparr>this = b, world = 600\<rparr>)"
proof -
  let ?s = "\<lparr>this = b, world = 0 :: int\<rparr>"
  let ?s1 = "\<lparr>this = b, world = 600 :: int\<rparr>"
  let ?B = "Benchmark :: (int run_state, 'e) Benchmark_class"
  have ts: "take_samples (performance_now ticking) ?B 300 ?s = Some (replicate 300 (Num 1), ?s1)"
    by (simp add: take_samples_ticking)
  have st: "stop_condition (running_total (replicate 300 (Num 1))) 300"
    by (simp add: running_total_ones stop_condition_def)
  have ns: "\<forall>k<300. \<not> stop_condition (running_total (take k (replicate 300 (Num 1)))) k"
    by (simp add: running_total_ones stop_condition_def min_def)
  from run_returns[OF Benchmark_invoke(1) ts st ns Benchmark_invoke(3)] show ?thesis by simp
qed

subsection \<open>Runs that fail\<close>

lemma failing_bench_invoke:
  "invoke (setup_hook failing_bench) h = (Fulfilled, h)"
  "h < 6 \<Longrightarrow> invoke (bench failing_bench) h = (Fulfilled, h + 3)"
  "6 \<le> h \<Longrightarrow> invoke (bench failing_bench) h = (Failed ''boom'', h)"
  by (simp_all add: failing_bench_def Benchmark_def invoke_def)

lemma take_samples_failing_bench:
  "take_samples clock_now failing_bench 2 0 = Some ([Num (3 / 2), Num (3 / 2)], 6)"
  by (simp add: eval_nat_numeral clock_now_def failing_bench_invoke fl_numerals)

lemma running_total_failing_bench:
  "running_total [] = Num 0" "running_total [Num (3 / 2)] = Num (3 / 2)"
  "running_total [Num (3 / 2), Num (3 / 2)] = Num 3"
  by (simp_all add: running_total_def fl_numerals)

subsection \<open>Rounding at work\<close>

lemma fl_below_300: "fl below_300 = Num below_300"
proof -
  let ?a = "300 - 1 / 2 ^ 44 :: real"
  have "?a * 2 ^ 44 = real_of_int 5277655813324799" by simp
  then have "nearest_even (?a * 2 ^ 44) = 5277655813324799"
    by (simp only: nearest_even_of_int)
  moreover have "fl ?a = Num (of_int (nearest_even (?a * 2 ^ 44)) / 2 ^ 44)"
    by (rule fl_binade8) simp_all
  ultimately show ?thesis by (simp add: below_300_def)
qed

lemma fl_small:
  "fl half_step_and_more = Num half_step_and_more"
  "fl quarter_step = Num quarter_step"
  using fl_exact[of 32769 "- 60"] fl_exact[of 1 "- 46"]
  by (simp_all add: powr_minus_divide half_step_and_more_def quarter_step_def)



text \<open>An addition that rounds up to 300, and one that is absorbed.\<close>

lemma fl_rounds_up:
  "fl (below_300 + half_step_and_more) = Num 300"
proof -
  let ?x = "300 - 1 / 2 ^ 44 + (1 / 2 ^ 45 + 1 / 2 ^ 60) :: real"
  have "nearest_even (?x * 2 ^ 44) = 5277655813324799 + 1"
    by (rule nearest_even_up) simp_all
  moreover have "fl ?x = Num (of_int (nearest_even (?x * 2 ^ 44)) / 2 ^ 44)"
    by (rule fl_binade8) simp_all
  ultimately show ?thesis by (simp add: below_300_def half_step_and_more_def)
qed


lemma fl_zero: "fl 0 = Num 0"
  by (simp add: fl_def)

subsection \<open>A run that stops below an exact sum of 300\<close>

lemma take_samples_rounding_later:
  "4 \<le> k \<Longrightarrow>
   take_samples rounding_now (Benchmark :: (nat, 'e) Benchmark_class) n k =
     Some (replicate n (Num 0), k + 2 * n)"
  by (induction n arbitrary: k)
     (simp_all add: rounding_now_def Benchmark_invoke fl_zero)

lemma take_samples_rounding:
  "take_samples rounding_now (Benchmark :: (nat, 'e) Benchmark_class) (Suc (Suc n)) 0 =
     Some (Num below_300 # Num half_step_and_more # replicate n (Num 0),
           4 + 2 * n)"
  by (simp add: rounding_now_def Benchmark_invoke take_samples_rounding_later
        fl_below_300 fl_small)

lemma foldl_js_add_zeros:
  "foldl js_add (Num 300) (replicate n (Num 0)) = Num 300"
  by (induction n) (simp_all add: fl_numerals)

lemma running_total_rounding:
  "running_total [] = Num 0"
  "running_total [Num below_300] = Num below_300"
  "running_total (Num below_300 # Num half_step_and_more # replicate n (Num 0))
     = Num 300"
  by (simp_all add: running_total_def fl_below_300 fl_rounds_up foldl_js_add_zeros)

lemma exact_sum_zeros: "exact_sum (replicate n (Num 0)) = Some 0"
  by (induction n) simp_all

lemma run_rounding:
  "run rounding_now (Benchmark :: (nat, 'e) Benchmark_class) 0 =
     Some (Inr (Num below_300 # Num half_step_and_more # replicate 209 (Num 0)),
           422)"
proof -
  let ?B = "Benchmark :: (nat, 'e) Benchmark_class"
  let ?ys = "Num below_300 # Num half_step_and_more # replicate 209 (Num 0)"
  have "take_samples rounding_now ?B (Suc (Suc 209)) 0 = Some (?ys, 4 + 2 * 209)"
    by (rule take_samples_rounding)
  then have ts: "take_samples rounding_now ?B 211 0 = Some (?ys, 422)" by simp
  have st: "stop_condition (running_total ?ys) 211"
    by (simp add: running_total_rounding stop_condition_def)
  have ns: "\<forall>k<211. \<not> stop_condition (running_total (take k ?ys)) k"
    by (simp add: stop_condition_def)
  from run_returns[OF Benchmark_invoke(1) ts st ns Benchmark_invoke(3)] show ?thesis by simp
qed

subsection \<open>A run that never stops\<close>









subsection \<open>Termination\<close>






subsection \<open>Exact sums and signs\<close>

lemma exact_sum_replicate:
  "exact_sum (replicate n (Num x)) = Some (real n * x)"
  by (induction n) (simp_all add: algebra_simps)

lemma exact_sum_rounding:
  "exact_sum (Num below_300 # Num half_step_and_more # replicate n (Num 0))
     = Some (below_300 + half_step_and_more)"
  by (simp add: exact_sum_replicate)

lemma rounding_sum_less: "below_300 + half_step_and_more < 300"
  by (simp add: below_300_def half_step_and_more_def)

lemma js_sub_nonneg:
  assumes "js_ge e st" and "js_finite st \<or> js_finite e"
  shows "js_ge (js_sub e st) (Num 0)"
proof (cases e; cases st)
  fix x y assume "e = Num x" "st = Num y"
  with assms(1) fl_nonneg[of "x - y"] show ?thesis by simp
qed (use assms in simp_all)

section \<open>The claims\<close>

text \<open>
  C6: a benchmark definition that does not override the configuration query (whatever
  hooks it overrides) gets from \<open>getArguments\<close>, which takes no instance, exactly one
  configuration, with the empty string as its label and the empty object as its options.
\<close>

theorem C6_getArguments_default:
  "getArguments (Benchmark\<lparr>setup_hook := a, bench := b, teardown := c\<rparr>) =
     [\<lparr>BenchmarkOptions.label = '''', BenchmarkOptions.options = JObject []\<rparr>]
   \<and> getArguments (Benchmark :: ('s, 'e) Benchmark_class) =
     [\<lparr>BenchmarkOptions.label = '''', BenchmarkOptions.options = JObject []\<rparr>]"
  by (simp add: Benchmark_def)

text \<open>
  C5: when \<open>bench\<close> is the only hook overridden and each of the first 211 measured
  durations is exactly 3/2, the run collects exactly these 211 samples and returns
  them; their sum is 633/2 = 316.5, as real numbers and as the running total of the
  loop alike.
\<close>

theorem C5_scenario_A:
  assumes "take_samples now (Benchmark\<lparr>bench := b\<rparr>) 211 s = Some (xs, s1)"
    and "\<forall>x\<in>set xs. x = Num (3 / 2)"
  shows "run now (Benchmark\<lparr>bench := b\<rparr>) s = Some (Inr xs, s1)
         \<and> length xs = 211 \<and> exact_sum xs = Some (633 / 2)
         \<and> running_total xs = Num (633 / 2)"
proof -
  let ?B = "Benchmark\<lparr>bench := b\<rparr>"
  have len: "length xs = 211" using assms(1) by (rule take_samples_length)
  have xs: "xs = replicate 211 (Num (3 / 2))"
    using assms(2) len replicate_length_same[of xs "Num (3 / 2)"] by simp
  have su: "invoke (setup_hook ?B) s = (Fulfilled, s)" by (simp add: Benchmark_def invoke_def)
  have td: "invoke (teardown ?B) s1 = (Fulfilled, s1)" by (simp add: Benchmark_def invoke_def)
  have rt: "running_total xs = Num (633 / 2)"
    using running_total_halves[of 3 211] by (simp add: xs)
  have st: "stop_condition (running_total xs) 211"
    by (simp add: rt stop_condition_def)
  have ns: "\<forall>k<211. \<not> stop_condition (running_total (take k xs)) k"
    by (simp add: stop_condition_def)
  from run_returns[OF su assms(1) st ns td]
  have "run now ?B s = Some (Inr xs, s1)" by simp
  moreover have "exact_sum xs = Some (633 / 2)" by (simp add: xs exact_sum_replicate)
  ultimately show ?thesis using len rt by simp
qed

theorem C5_scenario_A_witness:
  "take_samples clock_now (fixed_duration 3) 211 0 = Some (replicate 211 (Num (3 / 2)), 633)
   \<and> set (replicate 211 (Num (3 / 2))) = {Num (3 / 2)}
   \<and> run clock_now (fixed_duration 3) 0 = Some (Inr (replicate 211 (Num (3 / 2))), 633)
   \<and> length (replicate 211 (Num (3 / 2))) = 211
   \<and> exact_sum (replicate 211 (Num (3 / 2))) = Some (633 / 2)
   \<and> running_total (replicate 211 (Num (3 / 2))) = Num (633 / 2)"
proof -
  have B: "fixed_duration 3 = Benchmark\<lparr>bench := (\<lambda>h. (Returns, h + 3))\<rparr>"
    by (simp add: fixed_duration_def)
  have "take_samples clock_now (fixed_duration 3) 211 0
            = Some (replicate 211 (Num (3 / 2)), 633)"
    using take_samples_clock[OF fixed_duration_invoke(2), of 3 0 211] by simp
  then have ts: "take_samples clock_now (Benchmark\<lparr>bench := (\<lambda>h. (Returns, h + 3))\<rparr>
              :: (int, string) Benchmark_class) 211 0
            = Some (replicate 211 (Num (3 / 2)), 633)"
    by (simp add: B)
  have el: "\<forall>x\<in>set (replicate 211 (Num (3 / 2))). x = Num (3 / 2)" by simp
  from C5_scenario_A[OF ts el] ts show ?thesis by (simp add: B)
qed

text \<open>
  C1, as stated, fails for the sum of the samples as real numbers: the test of line 61
  is made on the running total, which is rounded at each addition. With the readings
  of \<open>rounding_now\<close>, all of them doubles, the loop stops at 211 samples, whose sum is
  less than 300.
\<close>

theorem C1_exact_sum_counterexample:
  "run rounding_now (Benchmark :: (nat, string) Benchmark_class) 0 =
     Some (Inr (Num below_300 # Num half_step_and_more # replicate 209 (Num 0)), 422)
   \<and> exact_sum (Num below_300 # Num half_step_and_more # replicate 209 (Num 0))
       = Some (below_300 + half_step_and_more)
   \<and> below_300 + half_step_and_more < 300
   \<and> fl below_300 = Num below_300
   \<and> fl half_step_and_more = Num half_step_and_more"
  using run_rounding[where 'e = string] exact_sum_rounding[of 209] rounding_sum_less
    fl_below_300 fl_small(1)
  by simp

text \<open>
  C1, amended: when the hook \<open>setup\<close> has settled and the invocations of \<open>bench\<close>
  succeed, the loop stops at the first number \<open>n\<close> of samples at which the running total
  (the samples added one by one in double arithmetic, as line 68 does) is at least 300
  and \<open>n\<close> exceeds 210: if the first \<open>n\<close> samples reach both thresholds and no shorter
  prefix does, the run takes exactly these \<open>n\<close> samples and goes on to \<open>teardown\<close>; and
  the samples that a run returns reach both thresholds while no proper prefix of them
  does.
\<close>

theorem C1_stops_at_first_index:
  "(invoke (setup_hook B) s = (Fulfilled, s0) \<and>
    take_samples now B n s0 = Some (ys, s1) \<and>
    js_ge (running_total ys) (Num 300) \<and> 210 < n \<and>
    (\<forall>k<n. \<not> (js_ge (running_total (take k ys)) (Num 300) \<and> 210 < k)) \<and>
    invoke (teardown B) s1 = (out, s2)
    \<longrightarrow> run now B s = after_teardown out ys s2)
   \<and> (run now B s = Some (Inr xs, s') \<longrightarrow>
        js_ge (running_total xs) (Num 300) \<and> 210 < length xs \<and>
        (\<forall>k<length xs. \<not> (js_ge (running_total (take k xs)) (Num 300) \<and> 210 < k)) \<and>
        (\<exists>s0 s1. invoke (setup_hook B) s = (Fulfilled, s0) \<and>
           take_samples now B (length xs) s0 = Some (xs, s1) \<and>
           invoke (teardown B) s1 = (Fulfilled, s')))"
proof (rule conjI[OF impI impI])
  assume h: "invoke (setup_hook B) s = (Fulfilled, s0) \<and>
    take_samples now B n s0 = Some (ys, s1) \<and>
    js_ge (running_total ys) (Num 300) \<and> 210 < n \<and>
    (\<forall>k<n. \<not> (js_ge (running_total (take k ys)) (Num 300) \<and> 210 < k)) \<and>
    invoke (teardown B) s1 = (out, s2)"
  then have st: "stop_condition (running_total ys) n"
    and ns: "\<forall>k<n. \<not> stop_condition (running_total (take k ys)) k"
    by (simp_all add: stop_condition_def)
  from h have "invoke (setup_hook B) s = (Fulfilled, s0)"
    "take_samples now B n s0 = Some (ys, s1)" "invoke (teardown B) s1 = (out, s2)"
    by simp_all
  from run_returns[OF this(1,2) st ns this(3)]
  show "run now B s = after_teardown out ys s2" .
next
  assume "run now B s = Some (Inr xs, s')"
  from run_Inr_cases[OF this]
  show "js_ge (running_total xs) (Num 300) \<and> 210 < length xs \<and>
        (\<forall>k<length xs. \<not> (js_ge (running_total (take k xs)) (Num 300) \<and> 210 < k)) \<and>
        (\<exists>s0 s1. invoke (setup_hook B) s = (Fulfilled, s0) \<and>
           take_samples now B (length xs) s0 = Some (xs, s1) \<and>
           invoke (teardown B) s1 = (Fulfilled, s'))"
    unfolding stop_condition_def by blast
qed

text \<open>
  The witness is Scenario B: with 50 units per call the running total reaches 300 at
  the sixth sample, and the loop goes on to 211 samples.
\<close>

theorem C1_stops_at_first_index_witness:
  "run clock_now (fixed_duration 100) 0 = Some (Inr (replicate 211 (Num 50)), 21100)
   \<and> js_ge (running_total (take 6 (replicate 211 (Num 50)))) (Num 300)
   \<and> js_ge (running_total (replicate 211 (Num 50))) (Num 300)
   \<and> 210 < length (replicate 211 (Num 50))"
proof -
  have rt: "\<And>k. k \<le> 211 \<Longrightarrow> running_total (replicate k (Num 50)) = Num (50 * real k)"
  proof -
    fix k :: nat assume "k \<le> 211"
    then have "int k * 100 < 2 ^ 52" by simp
    from running_total_halves[OF _ this] show "running_total (replicate k (Num 50)) = Num (50 * real k)"
      by simp
  qed
  have h: "invoke (setup_hook (fixed_duration 100)) 0 = (Fulfilled, 0) \<and>
    take_samples clock_now (fixed_duration 100) 211 0 = Some (replicate 211 (Num 50), 21100) \<and>
    js_ge (running_total (replicate 211 (Num 50))) (Num 300) \<and> (210 :: nat) < 211 \<and>
    (\<forall>k<211. \<not> (js_ge (running_total (take k (replicate 211 (Num 50)))) (Num 300) \<and> 210 < k)) \<and>
    invoke (teardown (fixed_duration 100)) 21100 = (Fulfilled, 21100)"
    using take_samples_clock[OF fixed_duration_invoke(2), of 100 0 211]
    by (simp add: fixed_duration_invoke rt)
  have r: "run clock_now (fixed_duration 100) 0 = Some (Inr (replicate 211 (Num 50)), 21100)"
    using C1_stops_at_first_index[THEN conjunct1, rule_format, OF h] by simp
  from C1_stops_at_first_index[THEN conjunct2, rule_format, OF r] r
  show ?thesis by (simp add: rt)
qed

text \<open>
  C9, as stated, fails for the sum of the samples as real numbers: \<open>elapsed\<close> is rounded
  at each addition. With the readings of \<open>rounding_now\<close> the third evaluation of line 61
  finds \<open>elapsed\<close> at 300 and the samples at a sum below 300, and the array that the
  run returns has this sum.
\<close>

theorem C9_exact_sum_counterexample:
  "nth_call rounding_now (Benchmark :: (nat, string) Benchmark_class) 2 (Num 0) [] 0 =
     Some (Num 300, [Num below_300, Num half_step_and_more], 4)
   \<and> exact_sum [Num below_300, Num half_step_and_more] = Some (below_300 + half_step_and_more)
   \<and> below_300 + half_step_and_more < 300
   \<and> run rounding_now (Benchmark :: (nat, string) Benchmark_class) 0 =
       Some (Inr (Num below_300 # Num half_step_and_more # replicate 209 (Num 0)), 422)
   \<and> exact_sum (Num below_300 # Num half_step_and_more # replicate 209 (Num 0))
       = Some (below_300 + half_step_and_more)"
proof -
  let ?B = "Benchmark :: (nat, string) Benchmark_class"
  have ts: "take_samples rounding_now ?B (Suc (Suc 0)) 0 =
              Some (Num below_300 # Num half_step_and_more # replicate 0 (Num 0), 4 + 2 * 0)"
    by (rule take_samples_rounding)
  have ns: "\<forall>k<Suc (Suc 0). \<not> stop_condition
               (foldl js_add (Num 0)
                  (take k (Num below_300 # Num half_step_and_more # replicate 0 (Num 0))))
               (length ([] :: js_number list) + k)"
    by (simp add: stop_condition_def)
  from nth_call_take_samples[OF ts ns] running_total_rounding(3)[of 0]
  have "nth_call rounding_now ?B 2 (Num 0) [] 0 =
          Some (Num 300, [Num below_300, Num half_step_and_more], 4)"
    by (simp add: running_total_def eval_nat_numeral)
  with run_rounding[where 'e = string] exact_sum_rounding[of 209] exact_sum_rounding[of 0]
    rounding_sum_less
  show ?thesis by simp
qed

text \<open>
  C9, amended: at every call of \<open>next\<close> of a run, that is, at every evaluation of the
  test of line 61, \<open>elapsed\<close> is the running total of the elements of \<open>samples\<close> (they
  added one by one, from the left, in double arithmetic), and the number of these
  elements is the number of the call; so the array a run returns has at least 211
  elements, and their running total is at least 300: the last call of \<open>next\<close> has the
  returned array and its running total as arguments.
\<close>

theorem C9_elapsed_is_running_total:
  "(nth_call now B k (Num 0) [] s0 = Some (el, xs, s1) \<longrightarrow>
      el = running_total xs \<and> length xs = k \<and>
      next_sample now B (Num 0) [] s0 = next_sample now B el xs s1)
   \<and> (run now B s = Some (Inr zs, s') \<longrightarrow>
        211 \<le> length zs \<and> js_ge (running_total zs) (Num 300) \<and>
        (\<exists>s0 s1. invoke (setup_hook B) s = (Fulfilled, s0) \<and>
           nth_call now B (length zs) (Num 0) [] s0 = Some (running_total zs, zs, s1)))"
proof (rule conjI[OF impI impI])
  assume "nth_call now B k (Num 0) [] s0 = Some (el, xs, s1)"
  from nth_call_invariant[OF this]
  show "el = running_total xs \<and> length xs = k \<and>
      next_sample now B (Num 0) [] s0 = next_sample now B el xs s1"
    by (auto simp: running_total_def)
next
  assume "run now B s = Some (Inr zs, s')"
  from run_Inr_cases[OF this] obtain s0 s1 where
    su: "invoke (setup_hook B) s = (Fulfilled, s0)" and
    ts: "take_samples now B (length zs) s0 = Some (zs, s1)" and
    st: "stop_condition (running_total zs) (length zs)" and
    ns: "\<forall>k<length zs. \<not> stop_condition (running_total (take k zs)) k"
    by blast
  from nth_call_take_samples[OF ts, of "Num 0" "[]"] ns
  have "nth_call now B (length zs) (Num 0) [] s0 = Some (running_total zs, zs, s1)"
    by (simp add: running_total_def)
  with su st
  show "211 \<le> length zs \<and> js_ge (running_total zs) (Num 300) \<and>
        (\<exists>s0 s1. invoke (setup_hook B) s = (Fulfilled, s0) \<and>
           nth_call now B (length zs) (Num 0) [] s0 = Some (running_total zs, zs, s1))"
    by (auto simp: stop_condition_def)
qed

theorem C9_elapsed_is_running_total_witness:
  "nth_call rounding_now (Benchmark :: (nat, string) Benchmark_class) 2 (Num 0) [] 0 =
     Some (Num 300, [Num below_300, Num half_step_and_more], 4)
   \<and> Num 300 = running_total [Num below_300, Num half_step_and_more]
   \<and> run clock_now (fixed_duration 100) 0 = Some (Inr (replicate 211 (Num 50)), 21100)
   \<and> 211 \<le> length (replicate 211 (Num 50))
   \<and> js_ge (running_total (replicate 211 (Num 50))) (Num 300)"
proof -
  let ?B = "Benchmark :: (nat, string) Benchmark_class"
  have ts: "take_samples rounding_now ?B (Suc (Suc 0)) 0 =
              Some (Num below_300 # Num half_step_and_more # replicate 0 (Num 0), 4 + 2 * 0)"
    by (rule take_samples_rounding)
  have ns: "\<forall>k<Suc (Suc 0). \<not> stop_condition
               (foldl js_add (Num 0)
                  (take k (Num below_300 # Num half_step_and_more # replicate 0 (Num 0))))
               (length ([] :: js_number list) + k)"
    by (simp add: stop_condition_def)
  from nth_call_take_samples[OF ts ns] running_total_rounding(3)[of 0]
  have c: "nth_call rounding_now ?B 2 (Num 0) [] 0 =
          Some (Num 300, [Num below_300, Num half_step_and_more], 4)"
    by (simp add: running_total_def eval_nat_numeral)
  have r: "run clock_now (fixed_duration 100) 0 = Some (Inr (replicate 211 (Num 50)), 21100)"
    by (rule run_scenario_B)
  from C9_elapsed_is_running_total[THEN conjunct1, rule_format, OF c]
    C9_elapsed_is_running_total[THEN conjunct2, rule_format, OF r] c r
  show ?thesis by simp
qed

text \<open>
  C7: the array a run returns is in the order of collection: its element of index \<open>k\<close>
  is the difference, in double arithmetic, of the two timer readings around the
  invocation of \<open>bench\<close> that follows \<open>k\<close> earlier ones, and its length is the number of
  invocations of \<open>bench\<close> that an observer of the run counts.
\<close>

theorem C7_order_preserved:
  assumes "run now B s = Some (Inr xs, s')"
  shows "\<exists>s0 s1. invoke (setup_hook B) s = (Fulfilled, s0) \<and>
           take_samples now B (length xs) s0 = Some (xs, s1) \<and>
           invoke (teardown B) s1 = (Fulfilled, s') \<and>
           (\<forall>k<length xs. \<exists>sk start sa sb end sc.
              take_samples now B k s0 = Some (take k xs, sk) \<and> now sk = (start, sa) \<and>
              invoke (bench B) sa = (Fulfilled, sb) \<and> now sb = (end, sc) \<and>
              xs ! k = js_sub end start) \<and>
           run (observed_now now) (observed B) (s, []) =
             Some (Inr xs, (s', [Invoked Setup, Settled Setup] @ bench_events (length xs)
                                @ [Invoked Teardown, Settled Teardown])) \<and>
           length (filter (\<lambda>e. e = Invoked Bench)
             ([Invoked Setup, Settled Setup] @ bench_events (length xs)
                @ [Invoked Teardown, Settled Teardown])) = length xs"
proof -
  from run_Inr_cases[OF assms] obtain s0 s1 where
    su: "invoke (setup_hook B) s = (Fulfilled, s0)" and
    ts: "take_samples now B (length xs) s0 = Some (xs, s1)" and
    td: "invoke (teardown B) s1 = (Fulfilled, s')"
    by blast
  have each: "\<forall>k<length xs. \<exists>sk start sa sb end sc.
              take_samples now B k s0 = Some (take k xs, sk) \<and> now sk = (start, sa) \<and>
              invoke (bench B) sa = (Fulfilled, sb) \<and> now sb = (end, sc) \<and>
              xs ! k = js_sub end start"
  proof (intro allI impI)
    fix k assume "k < length xs"
    from take_samples_nth[OF ts this]
    show "\<exists>sk start sa sb end sc.
              take_samples now B k s0 = Some (take k xs, sk) \<and> now sk = (start, sa) \<and>
              invoke (bench B) sa = (Fulfilled, sb) \<and> now sb = (end, sc) \<and>
              xs ! k = js_sub end start"
      by blast
  qed
  have obs: "run (observed_now now) (observed B) (s, []) =
             Some (Inr xs, (s', [Invoked Setup, Settled Setup] @ bench_events (length xs)
                                @ [Invoked Teardown, Settled Teardown]))"
    using run_observed_success[OF assms, of "[]"] by simp
  have cnt: "length (filter (\<lambda>e. e = Invoked Bench)
             ([Invoked Setup, Settled Setup] @ bench_events (length xs)
                @ [Invoked Teardown, Settled Teardown])) = length xs"
    by (simp add: bench_events_count)
  from su ts td each obs cnt show ?thesis by blast
qed

text \<open>
  The witness is a run whose first sample differs from the others, so that the order
  shows: the timer reads 10 and then 5 around the first invocation.
\<close>

theorem C7_order_preserved_witness:
  "run skewed_now (Benchmark :: (nat, string) Benchmark_class) 0 =
     Some (Inr (Num (- 5) # replicate 210 (Num 2)), 422)
   \<and> (Num (- 5) # replicate 210 (Num 2)) ! 0 = js_sub (Num 5) (Num 10)
   \<and> (Num (- 5) # replicate 210 (Num 2)) ! 1 = js_sub (Num 6) (Num 4)
   \<and> (\<exists>s0 s1. invoke (setup_hook (Benchmark :: (nat, string) Benchmark_class)) 0
                  = (Fulfilled, s0) \<and>
        take_samples skewed_now (Benchmark :: (nat, string) Benchmark_class)
          (length (Num (- 5) # replicate 210 (Num 2))) s0
            = Some (Num (- 5) # replicate 210 (Num 2), s1))
   \<and> run (observed_now skewed_now) (observed (Benchmark :: (nat, string) Benchmark_class))
        (0, []) =
       Some (Inr (Num (- 5) # replicate 210 (Num 2)),
             (422, [Invoked Setup, Settled Setup] @ bench_events 211
                     @ [Invoked Teardown, Settled Teardown]))"
proof -
  let ?B = "Benchmark :: (nat, string) Benchmark_class"
  let ?xs = "Num (- 5) # replicate 210 (Num 2)"
  note r = run_skewed[where 'e = string]
  from C7_order_preserved[OF r] obtain s0 s1 where
    a: "invoke (setup_hook ?B) 0 = (Fulfilled, s0)"
       "take_samples skewed_now ?B (length ?xs) s0 = Some (?xs, s1)"
    and o: "run (observed_now skewed_now) (observed ?B) (0, []) =
             Some (Inr ?xs, (422, [Invoked Setup, Settled Setup] @ bench_events (length ?xs)
                                @ [Invoked Teardown, Settled Teardown]))"
    by blast
  have e: "?xs ! 0 = js_sub (Num 5) (Num 10)" "?xs ! 1 = js_sub (Num 6) (Num 4)"
    by (simp_all add: fl_numerals)
  from o have o': "run (observed_now skewed_now) (observed ?B) (0, []) =
             Some (Inr ?xs, (422, [Invoked Setup, Settled Setup] @ bench_events 211
                                @ [Invoked Teardown, Settled Teardown]))"
    by simp
  from r e a o' show ?thesis by blast
qed

text \<open>
  C4, as stated, fails: the sample is the difference of the two readings as it comes
  (line 67), and nothing looks at its sign. With the inherited hooks and a timer that
  reads 10 and then 5, the run returns an array whose first element is -5.
\<close>

theorem C4_negative_sample_counterexample:
  "run skewed_now (Benchmark :: (nat, string) Benchmark_class) 0 =
     Some (Inr (Num (- 5) # replicate 210 (Num 2)), 422)
   \<and> \<not> js_ge (hd (Num (- 5) # replicate 210 (Num 2))) (Num 0)"
  using run_skewed[where 'e = string] by simp

text \<open>
  C4, amended: when, around each invocation of \<open>bench\<close> of a run that returns its
  samples, the timer does not read less after the invocation than before it, and the
  two readings are not the same infinity, every sample of the returned sequence is at
  least 0. Nothing is asked of the timer outside the run.
\<close>

theorem C4_samples_nonnegative:
  assumes "run now B s = Some (Inr xs, s')"
    and "invoke (setup_hook B) s = (Fulfilled, s0)"
    and "\<And>k sk start sa sb end sc.
           k < length xs \<Longrightarrow> take_samples now B k s0 = Some (take k xs, sk) \<Longrightarrow>
           now sk = (start, sa) \<Longrightarrow> invoke (bench B) sa = (Fulfilled, sb) \<Longrightarrow>
           now sb = (end, sc) \<Longrightarrow>
           js_ge end start \<and> (js_finite start \<or> js_finite end)"
  shows "\<forall>x\<in>set xs. js_ge x (Num 0)"
proof
  fix x assume "x \<in> set xs"
  then obtain k where k: "k < length xs" and x: "x = xs ! k"
    by (auto simp: in_set_conv_nth)
  from run_Inr_cases[OF assms(1)] assms(2) obtain s1 where
    ts: "take_samples now B (length xs) s0 = Some (xs, s1)"
    by auto
  from take_samples_nth[OF ts k] obtain sk start sa sb "end" sc where
    m: "take_samples now B k s0 = Some (take k xs, sk)" "now sk = (start, sa)"
    "invoke (bench B) sa = (Fulfilled, sb)" "now sb = (end, sc)"
    and d: "xs ! k = js_sub end start"
    by blast
  from assms(3)[OF k m] have "js_ge end start" "js_finite start \<or> js_finite end"
    by simp_all
  then have "js_ge (js_sub end start) (Num 0)" by (rule js_sub_nonneg)
  with x d show "js_ge x (Num 0)" by simp
qed

text \<open>
  The witness is a run on the timer of the counterexample, begun after its step back:
  the timer does step back, but not in this run.
\<close>

theorem C4_samples_nonnegative_witness:
  "run skewed_now (Benchmark :: (nat, string) Benchmark_class) 2 =
     Some (Inr (replicate 211 (Num 2)), 424)
   \<and> list_all (\<lambda>x. js_ge x (Num 0)) (replicate 211 (Num 2))
   \<and> fst (skewed_now 1) = Num 5 \<and> fst (skewed_now 0) = Num 10"
proof -
  let ?B = "Benchmark :: (nat, string) Benchmark_class"
  note r = run_skewed_later[where 'e = string]
  have su: "invoke (setup_hook ?B) 2 = (Fulfilled, 2)" by (rule Benchmark_invoke)
  have loc: "\<And>k sk start sa sb end sc.
           k < length (replicate 211 (Num 2)) \<Longrightarrow>
           take_samples skewed_now ?B k 2 = Some (take k (replicate 211 (Num 2)), sk) \<Longrightarrow>
           skewed_now sk = (start, sa) \<Longrightarrow> invoke (bench ?B) sa = (Fulfilled, sb) \<Longrightarrow>
           skewed_now sb = (end, sc) \<Longrightarrow>
           js_ge end start \<and> (js_finite start \<or> js_finite end)"
  proof -
    fix k sk start sa sb "end" sc
    assume "take_samples skewed_now ?B k 2 = Some (take k (replicate 211 (Num 2)), sk)"
      and n1: "skewed_now sk = (start, sa)" and b: "invoke (bench ?B) sa = (Fulfilled, sb)"
      and n2: "skewed_now sb = (end, sc)"
    then have sk: "sk = 2 + 2 * k" by (simp add: take_samples_skewed)
    from b have "sb = sa" by (simp add: Benchmark_invoke)
    with sk n1 n2 show "js_ge end start \<and> (js_finite start \<or> js_finite end)"
      by (auto simp: skewed_now_def)
  qed
  from C4_samples_nonnegative[OF r su loc] r
  show ?thesis by (simp add: list_all_iff skewed_now_def)
qed

text \<open>
  C10: a run of the base class, whose hooks are empty, leaves in \<open>this.label\<close> and
  \<open>this.options\<close> what the constructor copied from the configuration, whatever the
  clock does and however the run ends.
\<close>

theorem C10_label_options_unchanged:
  fixes res :: "'e failure + js_number list" and w :: 'w
  assumes "run (performance_now clk) Benchmark \<lparr>this = constructor opts, world = w\<rparr>
             = Some (res, s')"
  shows "Benchmark_instance.label (this s') = BenchmarkOptions.label opts
         \<and> Benchmark_instance.options (this s') = BenchmarkOptions.options opts"
proof -
  let ?s = "\<lparr>this = constructor opts, world = w\<rparr>"
  let ?B = "Benchmark :: ('w run_state, 'e) Benchmark_class"
  have su: "invoke (setup_hook ?B) ?s = (Fulfilled, ?s)" by (rule Benchmark_invoke)
  from run_cases[OF assms] su obtain n ys s1 where
    ts: "take_samples (performance_now clk) ?B n ?s = Some (ys, s1)" and
    le: "loop_end (performance_now clk) ?B (running_total ys) ys s1 res s'"
    by auto
  from le have "s' = s1" by (auto simp: loop_end_def Benchmark_invoke)
  with take_samples_this[OF ts] have "this s' = constructor opts" by simp
  then show ?thesis by (simp add: constructor_def)
qed

theorem C10_label_options_unchanged_witness:
  "run (performance_now ticking) (Benchmark :: (int run_state, string) Benchmark_class)
      \<lparr>this = constructor \<lparr>BenchmarkOptions.label = ''small'',
                            BenchmarkOptions.options = JObject [(''n'', JNumber (Num 10))]\<rparr>,
       world = 0\<rparr>
     = Some (Inr (replicate 300 (Num 1)),
         \<lparr>this = constructor \<lparr>BenchmarkOptions.label = ''small'',
                              BenchmarkOptions.options = JObject [(''n'', JNumber (Num 10))]\<rparr>,
          world = 600\<rparr>)
   \<and> Benchmark_instance.label (this
         \<lparr>this = constructor \<lparr>BenchmarkOptions.label = ''small'',
                              BenchmarkOptions.options = JObject [(''n'', JNumber (Num 10))]\<rparr>,
          world = 600 :: int\<rparr>) = ''small''
   \<and> Benchmark_instance.options (this
         \<lparr>this = constructor \<lparr>BenchmarkOptions.label = ''small'',
                              BenchmarkOptions.options = JObject [(''n'', JNumber (Num 10))]\<rparr>,
          world = 600 :: int\<rparr>) = JObject [(''n'', JNumber (Num 10))]"
proof -
  let ?o = "\<lparr>BenchmarkOptions.label = ''small'',
            BenchmarkOptions.options = JObject [(''n'', JNumber (Num 10))]\<rparr>"
  have r: "run (performance_now ticking) (Benchmark :: (int run_state, string) Benchmark_class)
             \<lparr>this = constructor ?o, world = 0\<rparr>
           = Some (Inr (replicate 300 (Num 1)), \<lparr>this = constructor ?o, world = 600\<rparr>)"
    by (rule run_ticking)
  from C10_label_options_unchanged[OF r] r show ?thesis by simp
qed

text \<open>
  C2, as stated, fails: when the hook \<open>setup\<close> throws, the run is over, and an observer
  has seen no invocation of \<open>bench\<close> and none of \<open>teardown\<close>.
\<close>

theorem C2_hook_order_counterexample:
  "run (observed_now clock_now) (observed failing_setup) (0, []) =
     Some (Inl (Thrown ''no data''), (0, [Invoked Setup, Settled Setup]))
   \<and> Invoked Bench \<notin> set [Invoked Setup, Settled Setup]
   \<and> Invoked Teardown \<notin> set [Invoked Setup, Settled Setup]"
  by (simp add: run_def observed_simps observe_hook_def failing_setup_def Benchmark_def)

text \<open>
  C2, amended. What an observer has noted when a run has settled is one of three
  sequences, and the hooks decide which. If \<open>setup\<close> failed: the invocation of \<open>setup\<close>
  and its settling, and nothing else. If \<open>setup\<close> was fulfilled, \<open>n\<close> invocations of
  \<open>bench\<close> were fulfilled and the next one failed: \<open>setup\<close>, then \<open>n + 1\<close> invocations of
  \<open>bench\<close>, and no \<open>teardown\<close>. Otherwise \<open>setup\<close> and more than 210 invocations of
  \<open>bench\<close> were fulfilled and \<open>teardown\<close> settled: \<open>setup\<close>, these invocations of
  \<open>bench\<close>, then \<open>teardown\<close> once. In each sequence an invocation is noted after the
  settling of the one before, where the settling of a hook that returns a promise is
  the end of the promise's work. Conversely, a run whose hook \<open>setup\<close> is fulfilled and
  which passes the test of line 61 for the first time after \<open>n\<close> fulfilled invocations
  of \<open>bench\<close> invokes \<open>teardown\<close> then, and settles as \<open>teardown\<close> does; and a run whose
  hook \<open>setup\<close> fails settles with this failure.
\<close>

theorem C2_hook_order:
  "(run (observed_now now) (observed B) (s, []) = Some (res, (s', tr)) \<longrightarrow>
      (\<exists>e. invoke (setup_hook B) s = (Failed e, s') \<and>
            res = Inl (if fst (setup_hook B s) = Throws e then Thrown e else Rejected e) \<and>
            tr = [Invoked Setup, Settled Setup])
      \<or> (\<exists>s0 n ys s1 start s2 e.
            invoke (setup_hook B) s = (Fulfilled, s0) \<and>
            take_samples now B n s0 = Some (ys, s1) \<and>
            now s1 = (start, s2) \<and> invoke (bench B) s2 = (Failed e, s') \<and>
            res = Inl (Rejected e) \<and>
            tr = [Invoked Setup, Settled Setup] @ bench_events (Suc n))
      \<or> (\<exists>s0 n ys s1 out.
            invoke (setup_hook B) s = (Fulfilled, s0) \<and>
            take_samples now B n s0 = Some (ys, s1) \<and> 210 < n \<and>
            invoke (teardown B) s1 = (out, s') \<and>
            after_teardown out ys s' = Some (res, s') \<and>
            tr = [Invoked Setup, Settled Setup] @ bench_events n
                   @ [Invoked Teardown, Settled Teardown]))
   \<and> (invoke (setup_hook B) s = (Fulfilled, s0) \<and>
      take_samples now B n s0 = Some (ys, s1) \<and>
      stop_condition (running_total ys) n \<and>
      (\<forall>k<n. \<not> stop_condition (running_total (take k ys)) k) \<and>
      invoke (teardown B) s1 = (out, s2) \<longrightarrow>
        run (observed_now now) (observed B) (s, []) =
          after_teardown out ys
            (s2, [Invoked Setup, Settled Setup] @ bench_events n @ hook_events Teardown out))
   \<and> (invoke (setup_hook B) s = (Failed e, s0) \<longrightarrow>
        run (observed_now now) (observed B) (s, []) =
          Some (Inl (if fst (setup_hook B s) = Throws e then Thrown e else Rejected e),
                (s0, [Invoked Setup, Settled Setup])))"
proof (intro conjI impI)
  let ?t0 = "[Invoked Setup, Settled Setup]"
  assume r: "run (observed_now now) (observed B) (s, []) = Some (res, (s', tr))"
  let ?A = "\<exists>e. invoke (setup_hook B) s = (Failed e, s') \<and>
            res = Inl (if fst (setup_hook B s) = Throws e then Thrown e else Rejected e) \<and>
            tr = ?t0"
  let ?Bf = "\<exists>s0 n ys s1 start s2 e.
            invoke (setup_hook B) s = (Fulfilled, s0) \<and>
            take_samples now B n s0 = Some (ys, s1) \<and>
            now s1 = (start, s2) \<and> invoke (bench B) s2 = (Failed e, s') \<and>
            res = Inl (Rejected e) \<and>
            tr = ?t0 @ bench_events (Suc n)"
  let ?T = "\<exists>s0 n ys s1 out.
            invoke (setup_hook B) s = (Fulfilled, s0) \<and>
            take_samples now B n s0 = Some (ys, s1) \<and> 210 < n \<and>
            invoke (teardown B) s1 = (out, s') \<and>
            after_teardown out ys s' = Some (res, s') \<and>
            tr = ?t0 @ bench_events n @ [Invoked Teardown, Settled Teardown]"
  from run_cases[OF r] consider
    (setup_fails) f where
      "invoke (setup_hook (observed B)) (s, []) = (Failed f, (s', tr))"
      "res = Inl (if fst (setup_hook (observed B) (s, [])) = Throws f
                  then Thrown f else Rejected f)"
    | (loop) \<sigma>0 m zs \<sigma>1 where
      "invoke (setup_hook (observed B)) (s, []) = (Fulfilled, \<sigma>0)"
      "take_samples (observed_now now) (observed B) m \<sigma>0 = Some (zs, \<sigma>1)"
      "loop_end (observed_now now) (observed B) (running_total zs) zs \<sigma>1 res (s', tr)"
    by blast
  then show "?A \<or> ?Bf \<or> ?T"
  proof cases
    case setup_fails
    from setup_fails(1) have
      "invoke (observe_hook Setup (setup_hook B)) (s, []) = (Failed f, (s', tr))"
      by (simp add: observed_simps)
    then have "invoke (setup_hook B) s = (Failed f, s')" "tr = ?t0"
      by (auto elim: invoke_observe_hook_elim)
    with setup_fails(2) have ?A
      by (simp add: observed_simps observe_hook_Throws)
    then show ?thesis by blast
  next
    case loop
    from loop(1) have
      "invoke (observe_hook Setup (setup_hook B)) (s, []) = (Fulfilled, \<sigma>0)"
      by (simp add: observed_simps)
    then obtain u0 where su: "invoke (setup_hook B) s = (Fulfilled, u0)"
      and \<sigma>0: "\<sigma>0 = (u0, ?t0)"
      by (auto elim: invoke_observe_hook_elim)
    from loop(2) \<sigma>0 have
      "take_samples (observed_now now) (observed B) m (u0, ?t0) = Some (zs, \<sigma>1)"
      by simp
    then obtain u1 where \<sigma>1: "\<sigma>1 = (u1, ?t0 @ bench_events m)"
      and ts: "take_samples now B m u0 = Some (zs, u1)"
      by (rule take_samples_observed_elim)
    have len: "length zs = m" using ts by (rule take_samples_length)
    from loop(3) consider
      (stops) ot where "stop_condition (running_total zs) (length zs)"
        "invoke (teardown (observed B)) \<sigma>1 = (ot, (s', tr))"
        "after_teardown ot zs (s', tr) = Some (res, (s', tr))"
      | (bench_fails) start \<sigma>2 f where
        "observed_now now \<sigma>1 = (start, \<sigma>2)"
        "invoke (bench (observed B)) \<sigma>2 = (Failed f, (s', tr))"
        "res = Inl (Rejected f)"
      by (auto simp: loop_end_def)
    then show ?thesis
    proof cases
      case stops
      from stops(3) have nn: "ot \<noteq> Never" by (cases ot) simp_all
      then have he: "hook_events Teardown ot = [Invoked Teardown, Settled Teardown]"
        by (cases ot) simp_all
      from stops(2) \<sigma>1 have
        "invoke (observe_hook Teardown (teardown B)) (u1, ?t0 @ bench_events m)
           = (ot, (s', tr))"
        by (simp add: observed_simps)
      then have td: "invoke (teardown B) u1 = (ot, s')"
        and e: "tr = (?t0 @ bench_events m) @ hook_events Teardown ot"
        by (auto elim: invoke_observe_hook_elim)
      from stops(3) have at: "after_teardown ot zs s' = Some (res, s')"
        by (cases ot) simp_all
      from stops(1) len have "210 < m" by (simp add: stop_condition_def)
      with su ts td e he at have ?T by auto
      then show ?thesis by blast
    next
      case bench_fails
      from bench_fails(1) \<sigma>1 obtain u2 where n1: "now u1 = (start, u2)"
        and \<sigma>2: "\<sigma>2 = (u2, ?t0 @ bench_events m)"
        by (auto simp: observed_simps split: prod.splits)
      from bench_fails(2) \<sigma>2 have
        "invoke (observe_hook Bench (bench B)) (u2, ?t0 @ bench_events m)
           = (Failed f, (s', tr))"
        by (simp add: observed_simps)
      then have b: "invoke (bench B) u2 = (Failed f, s')"
        and e: "tr = (?t0 @ bench_events m) @ [Invoked Bench, Settled Bench]"
        by (auto elim: invoke_observe_hook_elim)
      from e have "tr = ?t0 @ bench_events (Suc m)"
        by (simp add: bench_events_snoc[symmetric])
      with su ts n1 b bench_fails(3) have ?Bf by blast
      then show ?thesis by blast
    qed
  qed
next
  assume "invoke (setup_hook B) s = (Fulfilled, s0) \<and>
      take_samples now B n s0 = Some (ys, s1) \<and>
      stop_condition (running_total ys) n \<and>
      (\<forall>k<n. \<not> stop_condition (running_total (take k ys)) k) \<and>
      invoke (teardown B) s1 = (out, s2)"
  then have a: "invoke (setup_hook B) s = (Fulfilled, s0)"
    "take_samples now B n s0 = Some (ys, s1)"
    "stop_condition (running_total ys) n"
    "\<forall>k<n. \<not> stop_condition (running_total (take k ys)) k"
    "invoke (teardown B) s1 = (out, s2)"
    by simp_all
  from run_observed_stops[OF a, of "[]"]
  show "run (observed_now now) (observed B) (s, []) =
          after_teardown out ys
            (s2, [Invoked Setup, Settled Setup] @ bench_events n @ hook_events Teardown out)"
    by simp
next
  assume "invoke (setup_hook B) s = (Failed e, s0)"
  from run_observed_setup_fails[OF this, of now "[]"]
  show "run (observed_now now) (observed B) (s, []) =
          Some (Inl (if fst (setup_hook B s) = Throws e then Thrown e else Rejected e),
                (s0, [Invoked Setup, Settled Setup]))"
    by simp
qed

text \<open>
  The witness is a run whose hook \<open>bench\<close> returns a promise at once and does its work
  afterwards: each of the 211 invocations is noted after the work of the one before
  has ended, and \<open>teardown\<close> after the work of the last.
\<close>

theorem C2_hook_order_witness:
  "run (observed_now clock_now) (observed (deferred_duration 3)) (0, []) =
     Some (Inr (replicate 211 (Num (3 / 2))),
           (633, [Invoked Setup, Settled Setup] @ bench_events 211
                   @ [Invoked Teardown, Settled Teardown]))
   \<and> (\<exists>s0 n ys s1 out.
         invoke (setup_hook (deferred_duration 3)) 0 = (Fulfilled, s0) \<and>
         take_samples clock_now (deferred_duration 3) n s0 = Some (ys, s1) \<and> 210 < n \<and>
         invoke (teardown (deferred_duration 3)) s1 = (out, 633) \<and>
         after_teardown out ys (633 :: int) = Some (Inr (replicate 211 (Num (3 / 2))), 633) \<and>
         [Invoked Setup, Settled Setup] @ bench_events 211
            @ [Invoked Teardown, Settled Teardown]
         = [Invoked Setup, Settled Setup] @ bench_events n
            @ [Invoked Teardown, Settled Teardown])
   \<and> fst (bench (deferred_duration 3) 0) \<noteq> Returns"
proof -
  let ?xs = "replicate 211 (Num (3 / 2))"
  let ?tr = "[Invoked Setup, Settled Setup] @ bench_events 211
                   @ [Invoked Teardown, Settled Teardown]"
  have r: "run (observed_now clock_now) (observed (deferred_duration 3)) (0, []) =
     Some (Inr ?xs, (633, ?tr))"
    using run_observed_success[OF run_deferred, of "[]"] by simp
  have su: "\<And>e s'. invoke (setup_hook (deferred_duration 3)) 0 \<noteq> (Failed e, s')"
    by (simp add: deferred_duration_invoke)
  from C2_hook_order[THEN conjunct1, rule_format, OF r] su
  have "\<exists>s0 n ys s1 out.
         invoke (setup_hook (deferred_duration 3)) 0 = (Fulfilled, s0) \<and>
         take_samples clock_now (deferred_duration 3) n s0 = Some (ys, s1) \<and> 210 < n \<and>
         invoke (teardown (deferred_duration 3)) s1 = (out, 633) \<and>
         after_teardown out ys (633 :: int) = Some (Inr ?xs, 633) \<and>
         ?tr = [Invoked Setup, Settled Setup] @ bench_events n
            @ [Invoked Teardown, Settled Teardown]"
    by blast
  moreover have "fst (bench (deferred_duration 3) 0) \<noteq> Returns"
    by (simp add: deferred_duration_def)
  ultimately show ?thesis using r by blast
qed

text \<open>
  C3, as stated, fails: after a failing invocation of \<open>bench\<close> the hook \<open>teardown\<close> is
  not invoked, and the failure is the value that \<open>bench\<close> failed with, which names no
  index. Here the third invocation returns a promise that is rejected.
\<close>

theorem C3_no_teardown_counterexample:
  "run (observed_now clock_now) (observed failing_bench) (0, []) =
     Some (Inl (Rejected ''boom''),
           (6, [Invoked Setup, Settled Setup, Invoked Bench, Settled Bench,
                Invoked Bench, Settled Bench, Invoked Bench, Settled Bench]))
   \<and> Invoked Teardown \<notin> set [Invoked Setup, Settled Setup, Invoked Bench, Settled Bench,
                Invoked Bench, Settled Bench, Invoked Bench, Settled Bench]"
proof -
  have ns: "\<forall>k\<le>2. \<not> stop_condition (running_total (take k [Num (3 / 2), Num (3 / 2)])) k"
    by (simp add: stop_condition_def)
  have n1: "clock_now 6 = (Num 3, 6)" by (simp add: clock_now_def)
  have b: "invoke (bench failing_bench) 6 = (Failed ''boom'', 6)"
    by (simp add: failing_bench_invoke)
  from run_observed_bench_fails[OF failing_bench_invoke(1) take_samples_failing_bench ns n1 b,
      of "[]"]
  show ?thesis by (simp add: bench_events_def eval_nat_numeral)
qed

text \<open>
  C3, amended: if the hook \<open>setup\<close> has been fulfilled, \<open>n\<close> invocations of \<open>bench\<close> have
  been fulfilled without the test of line 61 passing (the test is on the running total
  in double arithmetic), and the next invocation fails with \<open>e\<close>, by a throw or by a
  rejected promise, then the promise of the run is rejected with \<open>e\<close> itself, the run
  ends in the state that the failing invocation left (no timestamp is read and no
  sample recorded for it, nothing is retried), \<open>bench\<close> has been invoked \<open>n + 1\<close>
  times, and \<open>teardown\<close> has not been invoked.
\<close>

theorem C3_bench_failure:
  assumes "invoke (setup_hook B) s = (Fulfilled, s0)"
    and "take_samples now B n s0 = Some (ys, s1)"
    and "\<forall>k\<le>n. \<not> (js_ge (running_total (take k ys)) (Num 300) \<and> 210 < k)"
    and "now s1 = (start, s2)" and "invoke (bench B) s2 = (Failed e, s3)"
  shows "run now B s = Some (Inl (Rejected e), s3)
         \<and> run (observed_now now) (observed B) (s, []) =
             Some (Inl (Rejected e),
                   (s3, [Invoked Setup, Settled Setup] @ bench_events (Suc n)))
         \<and> Invoked Teardown \<notin> set ([Invoked Setup, Settled Setup] @ bench_events (Suc n))
         \<and> length (filter (\<lambda>e. e = Invoked Bench)
             ([Invoked Setup, Settled Setup] @ bench_events (Suc n))) = Suc n"
proof -
  from assms(3) have ns: "\<forall>k\<le>n. \<not> stop_condition (running_total (take k ys)) k"
    by (simp add: stop_condition_def)
  from run_bench_fails[OF assms(1,2) ns assms(4,5)]
    run_observed_bench_fails[OF assms(1,2) ns assms(4,5), of "[]"]
    bench_events_no_teardown[of "Suc n"] bench_events_count[of "Suc n"]
  show ?thesis by simp
qed

theorem C3_bench_failure_witness:
  "run clock_now failing_bench 0 = Some (Inl (Rejected ''boom''), 6)
   \<and> run (observed_now clock_now) (observed failing_bench) (0, []) =
       Some (Inl (Rejected ''boom''),
             (6, [Invoked Setup, Settled Setup] @ bench_events 3))
   \<and> Invoked Teardown \<notin> set ([Invoked Setup, Settled Setup] @ bench_events 3)
   \<and> take_samples clock_now failing_bench 2 0 = Some ([Num (3 / 2), Num (3 / 2)], 6)
   \<and> invoke (bench failing_bench) 6 = (Failed ''boom'', 6)"
proof -
  have ns: "\<forall>k\<le>2. \<not> (js_ge (running_total (take k [Num (3 / 2), Num (3 / 2)])) (Num 300)
                        \<and> 210 < k)"
    by simp
  have n1: "clock_now 6 = (Num 3, 6)" by (simp add: clock_now_def)
  have b: "invoke (bench failing_bench) 6 = (Failed ''boom'', 6)"
    by (simp add: failing_bench_invoke)
  from C3_bench_failure[OF failing_bench_invoke(1) take_samples_failing_bench ns n1 b]
    take_samples_failing_bench b
  show ?thesis by (simp add: eval_nat_numeral)
qed




end
